theory Spec2Isabelle
  imports Main
begin

section \<open>JavaScript strings\<close>

text \<open>
  Strings are lists of characters (code units). A JavaScript value that may be
  \<^verbatim>\<open>null\<close> or \<^verbatim>\<open>undefined\<close> is a \<open>string option\<close>; the
  empty string and \<^verbatim>\<open>null\<close> are the two falsy strings.
\<close>

text \<open>\<^verbatim>\<open>s.startsWith(p)\<close>\<close>

fun startsWith :: "string \<Rightarrow> string \<Rightarrow> bool" where
  "startsWith s [] = True"
| "startsWith [] (p # ps) = False"
| "startsWith (c # cs) (p # ps) = (c = p \<and> startsWith cs ps)"

text \<open>\<^verbatim>\<open>s.includes(p)\<close>\<close>

fun includesStr :: "string \<Rightarrow> string \<Rightarrow> bool" where
  "includesStr [] p = (p = [])"
| "includesStr (c # cs) p = (startsWith (c # cs) p \<or> includesStr cs p)"

text \<open>Truthiness of a possibly-null string: \<^verbatim>\<open>!!s\<close>.\<close>

definition truthy :: "string option \<Rightarrow> bool" where
  "truthy s = (case s of None \<Rightarrow> False | Some v \<Rightarrow> v \<noteq> [])"

text \<open>\<^verbatim>\<open>a || b\<close> on possibly-null strings.\<close>

definition orElse :: "string option \<Rightarrow> string option \<Rightarrow> string option" where
  "orElse a b = (if truthy a then a else b)"

text \<open>\<^verbatim>\<open>a || d\<close> where \<open>d\<close> is a string.\<close>

definition orDefault :: "string option \<Rightarrow> string \<Rightarrow> string" where
  "orDefault a d = (case a of None \<Rightarrow> d | Some v \<Rightarrow> if v \<noteq> [] then v else d)"

section \<open>Episode codes\<close>

text \<open>The regular expression class \<^verbatim>\<open>\d\<close>: the ten ASCII digits.\<close>

definition isDigit :: "char \<Rightarrow> bool" where
  "isDigit c = (c \<in> set ''0123456789'')"

definition digitVal :: "char \<Rightarrow> nat" where
  "digitVal c = of_char c - of_char (CHR ''0'')"

text \<open>
  The numbers of the program that count seasons, episodes and seconds: IEEE doubles
  whose value is a natural number, and positive infinity.
\<close>

datatype number = Finite nat | Infinity

text \<open>The value of a string of digits read in base ten.\<close>

definition decimalValue :: "string \<Rightarrow> nat" where
  "decimalValue ds = foldl (\<lambda>n c. 10 * n + digitVal c) 0 ds"

text \<open>
  The number of low bits that a natural number has beyond the 53 bits of a double's
  significand.
\<close>

function shiftCount :: "nat \<Rightarrow> nat" where
  "shiftCount n = (if n < 2 ^ 53 then 0 else Suc (shiftCount (n div 2)))"
  by pat_completeness auto
termination
  by (relation "measure id") auto

declare shiftCount.simps [simp del]

text \<open>
  The Number value of a natural number: the nearest double, ties going to the even
  significand, and infinity from \<open>2^1024\<close> on. Below \<open>2^53\<close> every natural number is a
  double.
\<close>

definition toNumber :: "nat \<Rightarrow> number" where
  "toNumber n =
     (if n < 2 ^ 53 then Finite n
      else
        let e = shiftCount n; q = n div 2 ^ e; r = n mod 2 ^ e; half = 2 ^ (e - 1);
            m = (if half < r \<or> (r = half \<and> odd q) then q + 1 else q)
        in if m * 2 ^ e < 2 ^ 1024 then Finite (m * 2 ^ e) else Infinity)"

text \<open>
  \<^verbatim>\<open>parseInt(ds, 10)\<close> on a non-empty string of digits: the Number value of the
  integer that the digits denote. Up to twenty significant digits the language fixes
  this value; beyond, it lets an engine read the further digits as zeros, and V8, which
  runs both variants of the program, rounds the exact value all the same.
\<close>

definition parseInt10 :: "string \<Rightarrow> number" where
  "parseInt10 ds = toNumber (decimalValue ds)"

text \<open>\<^verbatim>\<open>a < b\<close> on these numbers.\<close>

fun numLess :: "number \<Rightarrow> number \<Rightarrow> bool" where
  "numLess (Finite a) (Finite b) = (a < b)"
| "numLess (Finite a) Infinity = True"
| "numLess Infinity b = False"

text \<open>
  \<^verbatim>\<open>a - b\<close> on these numbers. The difference of two finite numbers is the double
  nearest to the exact difference, which has the same sign and is zero only when the
  exact difference is; the exact difference stands for it.
\<close>

datatype difference = Diff int | PlusInfinity | MinusInfinity | NaN

fun jsMinus :: "number \<Rightarrow> number \<Rightarrow> difference" where
  "jsMinus (Finite a) (Finite b) = Diff (int a - int b)"
| "jsMinus Infinity (Finite b) = PlusInfinity"
| "jsMinus (Finite a) Infinity = MinusInfinity"
| "jsMinus Infinity Infinity = NaN"

text \<open>\<^verbatim>\<open>d > 0\<close>\<close>

definition positive :: "difference \<Rightarrow> bool" where
  "positive d = (case d of Diff k \<Rightarrow> 0 < k | PlusInfinity \<Rightarrow> True | MinusInfinity \<Rightarrow> False | NaN \<Rightarrow> False)"

record episodeCode =
  season :: number
  episode :: number

text \<open>
  The pattern \<^verbatim>\<open>/(\d+)x(\d+)/i\<close> anchored at the start of \<open>s\<close>: both groups
  are greedy, and giving digits back cannot help, since the character after a shorter
  first group is a digit, not the letter. The result is the two captured groups.
\<close>

definition matchCodeAt :: "string \<Rightarrow> (string \<times> string) option" where
  "matchCodeAt s =
     (let ds = takeWhile isDigit s in
      if ds = [] then None
      else case dropWhile isDigit s of
             [] \<Rightarrow> None
           | c # r \<Rightarrow>
               if c = CHR ''x'' \<or> c = CHR ''X'' then
                 (let es = takeWhile isDigit r in
                  if es = [] then None else Some (ds, es))
               else None)"

text \<open>\<^verbatim>\<open>url.match(/(\d+)x(\d+)/i)\<close>: the leftmost position where the pattern matches.\<close>

fun matchCode :: "string \<Rightarrow> (string \<times> string) option" where
  "matchCode [] = None"
| "matchCode (c # cs) =
     (case matchCodeAt (c # cs) of
        Some m \<Rightarrow> Some m
      | None \<Rightarrow> matchCode cs)"

text \<open>
  \<^verbatim>\<open>
  function parseEpisodeCode(url) {
    const match = url.match(/(\d+)x(\d+)/i);
    if (!match) return null;
    return { season: parseInt(match[1], 10), episode: parseInt(match[2], 10) };
  }
  \<close>
\<close>

definition parseEpisodeCode :: "string \<Rightarrow> episodeCode option" where
  "parseEpisodeCode url =
     (case matchCode url of
        None \<Rightarrow> None
      | Some (ds, es) \<Rightarrow> Some \<lparr>season = parseInt10 ds, episode = parseInt10 es\<rparr>)"

text \<open>
  The slug pattern of the specification, \<open><text>-<digits>x<digits>\<close>, read as
  generously as possible: somewhere in the input there is a hyphen with at least one
  character before it, directly followed by digits, the letter, and digits.
\<close>

definition isCodeLetter :: "char \<Rightarrow> bool" where
  "isCodeLetter c = (c = CHR ''x'' \<or> c = CHR ''X'')"

definition digits :: "string \<Rightarrow> bool" where
  "digits ds = (ds \<noteq> [] \<and> list_all isDigit ds)"

definition hasCode :: "string \<Rightarrow> bool" where
  "hasCode s = (\<exists>p ds c es q. s = p @ ds @ c # es @ q \<and> digits ds \<and> isCodeLetter c \<and> digits es)"

text \<open>An occurrence of digits, the letter and digits starts at position \<open>m\<close> of \<open>s\<close>.\<close>

definition codeStartsAt :: "string \<Rightarrow> nat \<Rightarrow> bool" where
  "codeStartsAt s m =
     (\<exists>ds c es q. drop m s = ds @ c # es @ q \<and> digits ds \<and> isCodeLetter c \<and> digits es)"

text \<open>
  The occurrence that the pattern matches: the leftmost one, with the digits after the
  letter taken as far as they go.
\<close>

definition matchedOccurrence :: "string \<Rightarrow> string \<Rightarrow> string \<Rightarrow> char \<Rightarrow> string \<Rightarrow> string \<Rightarrow> bool" where
  "matchedOccurrence s p ds c es q =
     (s = p @ ds @ c # es @ q \<and> digits ds \<and> isCodeLetter c \<and> digits es
      \<and> (case q of [] \<Rightarrow> True | d # q' \<Rightarrow> \<not> isDigit d)
      \<and> (\<forall>m < length p. \<not> codeStartsAt s m))"

definition hasSlugPattern :: "string \<Rightarrow> bool" where
  "hasSlugPattern s =
     (\<exists>t ds c es q. s = t @ CHR ''-'' # ds @ c # es @ q \<and> t \<noteq> [] \<and> digits ds \<and>
        isCodeLetter c \<and> digits es)"

section \<open>The HTTP fetch layer\<close>

text \<open>
  Everything the program does to the outside world is recorded in a trace of events, in
  the order in which it happens. The outside world answers a request depending on the
  whole trace so far, so the same URL may be answered differently each time.
\<close>

datatype event =
    Fetch string      \<comment> \<open>a call of \<^verbatim>\<open>fetchHtmlWithRetry(url, ...)\<close> begins\<close>
  | Request string    \<comment> \<open>one \<^verbatim>\<open>axios.get(url, config)\<close>\<close>
  | Delay nat         \<comment> \<open>\<^verbatim>\<open>await delay(ms)\<close>\<close>
  | Visited string    \<comment> \<open>\<^verbatim>\<open>visited.add(url)\<close> of the embed resolver\<close>

datatype exn = JsError string  \<comment> \<open>a thrown error and its \<^verbatim>\<open>message\<close>\<close>

datatype httpResult =
    ConnectionError string   \<comment> \<open>no response: refused, timed out, too many redirects, ...\<close>
  | Response nat string      \<comment> \<open>status and body of the final response\<close>

record tag =
  attr_src :: "string option"
  attr_data_src :: "string option"
  attr_data_lazy_src :: "string option"

record playerOption =
  data_type :: "string option"
  data_post :: "string option"
  data_nume :: "string option"

record anchor =
  attr_href :: "string option"
  anchor_text :: string              \<comment> \<open>\<^verbatim>\<open>node.text().trim()\<close>\<close>
  anchor_img :: "tag option"         \<comment> \<open>\<^verbatim>\<open>node.find("img").first()\<close>\<close>

text \<open>
  What the selectors and the script patterns find in a loaded document, in document
  order. \<open>scriptMatches\<close> lists, for every script, every pattern of
  \<^verbatim>\<open>pickFromScripts\<close> and every match, the text \<^verbatim>\<open>match[1] || match[0]\<close>.
\<close>

record document =
  videoTags :: "tag list"                \<comment> \<open>\<^verbatim>\<open>$("video, source")\<close>\<close>
  iframes :: "tag list"                  \<comment> \<open>\<^verbatim>\<open>$("iframe")\<close>\<close>
  scriptMatches :: "string list"
  playerOptions :: "playerOption list"   \<comment> \<open>\<^verbatim>\<open>$("li.dooplay_player_option")\<close>\<close>
  anchors :: "anchor list"               \<comment> \<open>\<^verbatim>\<open>$("a")\<close>\<close>

text \<open>
  The libraries and the configuration the program runs against: the HTTP client below
  the retry loop, the HTML parser, the URL parser, the clock and the configured values.
  \<open>httpGet tr n url\<close> is the final response to a request sent after the trace \<open>tr\<close>,
  with at most \<open>n\<close> redirects followed; the proxy chosen for the attempt is part of it.
\<close>

record env =
  httpGet :: "event list \<Rightarrow> nat \<Rightarrow> string \<Rightarrow> httpResult"
  statusError :: "nat \<Rightarrow> string"         \<comment> \<open>the client's message for a refused status\<close>
  cheerioLoad :: "string \<Rightarrow> document"
  urlHref :: "string \<Rightarrow> string \<Rightarrow> string option"
      \<comment> \<open>\<^verbatim>\<open>new URL(raw, base).href\<close>, \<open>None\<close> when it throws\<close>
  urlHostname :: "string \<Rightarrow> string option"
      \<comment> \<open>\<^verbatim>\<open>new URL(url).hostname\<close>, \<open>None\<close> when it throws\<close>
  homeUrl :: string                          \<comment> \<open>\<^verbatim>\<open>CONFIG.homeUrl\<close>\<close>
  embedMaxDepth :: int                       \<comment> \<open>\<^verbatim>\<open>CONFIG.embedMaxDepth\<close>\<close>
  dateNow :: "event list \<Rightarrow> nat"            \<comment> \<open>\<^verbatim>\<open>Date.now()\<close>\<close>
  seriesContext :: "event list \<Rightarrow> string \<Rightarrow> string \<Rightarrow> exn + string"
      \<comment> \<open>the series slug that \<^verbatim>\<open>resolveSeriesContext\<close> finds for an episode page and
         its URL, or what it throws\<close>

text \<open>\<^verbatim>\<open>CONFIG.maxRetries\<close>\<close>

definition maxRetries :: nat where
  "maxRetries = 3"

record axiosConfig =
  maxRedirects :: nat
  validateStatus :: "nat \<Rightarrow> bool"

text \<open>
  The configuration built for each attempt:
  \<^verbatim>\<open>maxRedirects: 5, validateStatus: (status) => status >= 200 && status < 400\<close>.
  Time-out, headers and the proxy agent do not change which branch the program takes.
\<close>

definition requestConfig :: axiosConfig where
  "requestConfig =
     \<lparr>maxRedirects = 5, validateStatus = (\<lambda>status. status \<ge> 200 \<and> status < 400)\<rparr>"

text \<open>
  \<^verbatim>\<open>axios.get(url, config)\<close>: resolves with the response when \<open>validateStatus\<close>
  accepts its status, and rejects otherwise and when there is no response.
\<close>

definition axiosGet :: "env \<Rightarrow> event list \<Rightarrow> string \<Rightarrow> axiosConfig \<Rightarrow> exn + string" where
  "axiosGet E tr url config =
     (case httpGet E tr (maxRedirects config) url of
        ConnectionError m \<Rightarrow> Inl (JsError m)
      | Response status body \<Rightarrow>
          if validateStatus config status then Inr body
          else Inl (JsError (statusError E status)))"

text \<open>\<^verbatim>\<open>lastErr?.message || "unknown error"\<close>\<close>

definition lastMessage :: "exn option \<Rightarrow> string" where
  "lastMessage lastErr =
     (case lastErr of
        None \<Rightarrow> ''unknown error''
      | Some (JsError m) \<Rightarrow> if m \<noteq> [] then m else ''unknown error'')"

text \<open>
  The loop of \<^verbatim>\<open>fetchHtmlWithRetry\<close>, entered with the attempt number and the last
  error so far:
  \<^verbatim>\<open>
  for (let attempt = 1; attempt <= retries; attempt++) {
    try { ...; const res = await axios.get(url, config); return String(res.data || ""); }
    catch (err) { lastErr = err; ...; await delay(500 * attempt); }
  }
  throw new Error(`Failed to fetch ${url}: ${lastErr?.message || "unknown error"}`);
  \<close>
\<close>

function fetchLoop ::
  "env \<Rightarrow> string \<Rightarrow> nat \<Rightarrow> nat \<Rightarrow> exn option \<Rightarrow> event list \<Rightarrow> (exn + string) \<times> event list"
where
  "fetchLoop E url retries attempt lastErr tr =
     (if attempt \<le> retries then
        (case axiosGet E tr url requestConfig of
           Inr body \<Rightarrow> (Inr body, tr @ [Request url])
         | Inl err \<Rightarrow>
             fetchLoop E url retries (attempt + 1) (Some err)
               (tr @ [Request url, Delay (500 * attempt)]))
      else
        (Inl (JsError (''Failed to fetch '' @ url @ '': '' @ lastMessage lastErr)), tr))"
  by pat_completeness auto
termination
  by (relation "measure (\<lambda>(E, url, retries, attempt, lastErr, tr). retries + 1 - attempt)") auto

declare fetchLoop.simps [simp del]

definition fetchHtmlWithRetry ::
  "env \<Rightarrow> string \<Rightarrow> nat \<Rightarrow> event list \<Rightarrow> (exn + string) \<times> event list"
where
  "fetchHtmlWithRetry E url retries tr = fetchLoop E url retries 1 None (tr @ [Fetch url])"

text \<open>
  The events of \<open>n\<close> failed attempts: a request, then a delay of \<open>500 * attempt\<close>
  milliseconds, for the attempts \<open>1\<close> to \<open>n\<close>.
\<close>

definition failedAttempts :: "string \<Rightarrow> nat \<Rightarrow> event list" where
  "failedAttempts url n = concat (map (\<lambda>k. [Request url, Delay (500 * k)]) [1..<Suc n])"

text \<open>
  The outcome of attempt \<open>k\<close> of a call that starts after the trace \<open>tr\<close>, when the
  attempts before it have failed.
\<close>

definition attemptOutcome :: "env \<Rightarrow> string \<Rightarrow> event list \<Rightarrow> nat \<Rightarrow> httpResult" where
  "attemptOutcome E url tr k =
     httpGet E (tr @ Fetch url # failedAttempts url (k - 1)) 5 url"

definition accepted :: "httpResult \<Rightarrow> bool" where
  "accepted r = (case r of ConnectionError m \<Rightarrow> False | Response status body \<Rightarrow> 200 \<le> status \<and> status < 400)"

text \<open>The message of the error a refused outcome is turned into.\<close>

definition failureMessage :: "env \<Rightarrow> httpResult \<Rightarrow> string" where
  "failureMessage E r = (case r of ConnectionError m \<Rightarrow> m | Response status body \<Rightarrow> statusError E status)"

text \<open>A request among the events.\<close>

definition isRequest :: "event \<Rightarrow> bool" where
  "isRequest e = (case e of Request u \<Rightarrow> True | _ \<Rightarrow> False)"

section \<open>URL helpers\<close>

text \<open>
  \<^verbatim>\<open>s.toLowerCase()\<close> on ASCII text. The resolver lower-cases only URLs that the URL
  parser has serialized, and those are ASCII.
\<close>

definition lowerChar :: "char \<Rightarrow> char" where
  "lowerChar c =
     (case map_of (zip ''ABCDEFGHIJKLMNOPQRSTUVWXYZ'' ''abcdefghijklmnopqrstuvwxyz'') c of
        Some l \<Rightarrow> l
      | None \<Rightarrow> c)"

definition toLowerCase :: "string \<Rightarrow> string" where
  "toLowerCase s = map lowerChar s"

text \<open>\<^verbatim>\<open>s.replace(/pat/g, rep)\<close> for a literal, non-empty pattern.\<close>

fun replaceAll :: "string \<Rightarrow> string \<Rightarrow> string \<Rightarrow> string" where
  "replaceAll pat rep [] = []"
| "replaceAll pat rep (c # cs) =
     (if pat \<noteq> [] \<and> startsWith (c # cs) pat
      then rep @ replaceAll pat rep (drop (length pat - 1) cs)
      else c # replaceAll pat rep cs)"

text \<open>
  \<^verbatim>\<open>decodeHtmlEntities\<close>: the eleven replacements, applied one after the other in the
  order of the source.
\<close>

definition entityTable :: "(string \<times> string) list" where
  "entityTable =
     [(''&#038;'', ''&''), (''&#38;'', ''&''), (''&amp;'', ''&''),
      (''&#039;'', [CHR 0x27]), (''&#39;'', [CHR 0x27]), (''&apos;'', [CHR 0x27]),
      (''&#034;'', [CHR 0x22]), (''&#34;'', [CHR 0x22]), (''&quot;'', [CHR 0x22]),
      (''&lt;'', ''<''), (''&gt;'', ''>'')]"

definition decodeHtmlEntities :: "string \<Rightarrow> string" where
  "decodeHtmlEntities str = foldl (\<lambda>s (pat, rep). replaceAll pat rep s) str entityTable"

text \<open>
  \<^verbatim>\<open>
  function normalizeUrl(rawUrl, base = CONFIG.homeUrl) {
    if (!rawUrl || /^javascript:/i.test(rawUrl)) return null;
    try { return new URL(decodeHtmlEntities(rawUrl), base).href; } catch { return null; }
  }
  \<close>
\<close>

definition normalizeUrl :: "env \<Rightarrow> string option \<Rightarrow> string \<Rightarrow> string option" where
  "normalizeUrl E rawUrl base =
     (case rawUrl of
        None \<Rightarrow> None
      | Some raw \<Rightarrow>
          if raw = [] \<or> startsWith (toLowerCase raw) ''javascript:'' then None
          else urlHref E (decodeHtmlEntities raw) base)"

text \<open>\<^verbatim>\<open>hostname.replace(/^www\./, "")\<close>\<close>

definition stripWww :: "string \<Rightarrow> string" where
  "stripWww h = (if startsWith h ''www.'' then drop 4 h else h)"

definition TOONSTREAM_HOST :: "env \<Rightarrow> string option" where
  "TOONSTREAM_HOST E = map_option stripWww (urlHostname E (homeUrl E))"

definition isToonstreamUrl :: "env \<Rightarrow> string \<Rightarrow> bool" where
  "isToonstreamUrl E url =
     (if url = [] \<or> \<not> truthy (TOONSTREAM_HOST E) then False
      else case urlHostname E url of
             None \<Rightarrow> False
           | Some hostname \<Rightarrow> Some (stripWww hostname) = TOONSTREAM_HOST E)"

section \<open>The embed resolver\<close>

text \<open>\<^verbatim>\<open>x && p(x)\<close> for a possibly-null string \<open>x\<close>.\<close>

definition truthyAnd :: "string option \<Rightarrow> (string \<Rightarrow> bool) \<Rightarrow> bool" where
  "truthyAnd x p = (case x of None \<Rightarrow> False | Some v \<Rightarrow> v \<noteq> [] \<and> p v)"

text \<open>
  \<^verbatim>\<open>const MAX_DEPTH = CONFIG.embedMaxDepth + 2\<close>, the configured depth being a whole
  number, possibly negative.
\<close>

definition MAX_DEPTH :: "env \<Rightarrow> int" where
  "MAX_DEPTH E = embedMaxDepth E + 2"

definition needsFollow :: "env \<Rightarrow> string \<Rightarrow> bool" where
  "needsFollow E url =
     (if url = [] then False
      else if includesStr url ''trembed'' then True
      else if includesStr url ''trid='' then True
      else if includesStr url ''trtype='' then True
      else if isToonstreamUrl E url then True
      else if includesStr url ''/embed/'' \<or> includesStr url ''/player/'' \<or> includesStr url ''/e/''
        then True
      else False)"

definition videoExtensions :: "string list" where
  "videoExtensions = [''.mp4'', ''.m3u8'', ''.webm'', ''.mkv'', ''.avi'', ''.mov'', ''.flv'']"

definition isVideoUrl :: "string \<Rightarrow> bool" where
  "isVideoUrl url =
     (if url = [] then False
      else if list_ex (includesStr (toLowerCase url)) videoExtensions then True
      else if includesStr url ''/video/'' \<or> includesStr url ''/stream/'' \<or> includesStr url ''/hls/''
        then True
      else if includesStr url ''googlevideo.com'' \<or> includesStr url ''googleusercontent.com''
        then True
      else if includesStr url ''streamtape'' \<or> includesStr url ''filemoon'' \<or> includesStr url ''voe.sx''
        then True
      else if includesStr url ''dood'' \<or> includesStr url ''mixdrop'' \<or> includesStr url ''streamlare''
        then True
      else False)"

text \<open>The state of one resolution: the visited-set, and the trace of the run so far.\<close>

record rstate =
  visited :: "string set"
  trace :: "event list"

text \<open>
  \<^verbatim>\<open>pickDirectVideo\<close>: the first \<^verbatim>\<open>video\<close> or \<^verbatim>\<open>source\<close> element whose
  \<^verbatim>\<open>src || data-src\<close> normalizes to a URL that does not start with \<^verbatim>\<open>blob:\<close>.
\<close>

fun pickDirectVideo :: "env \<Rightarrow> string \<Rightarrow> tag list \<Rightarrow> string option" where
  "pickDirectVideo E url [] = None"
| "pickDirectVideo E url (node # rest) =
     (let src = orElse (attr_src node) (attr_data_src node);
          normalized = normalizeUrl E src url
      in if truthyAnd normalized (\<lambda>n. \<not> startsWith n ''blob:'') then normalized
         else pickDirectVideo E url rest)"

text \<open>
  \<^verbatim>\<open>pickIframe\<close>: the first of the iframe URLs that normalize to something other than
  the current URL and any visited URL.
\<close>

definition iframeUrls :: "env \<Rightarrow> string \<Rightarrow> string set \<Rightarrow> tag list \<Rightarrow> string list" where
  "iframeUrls E url vis frames =
     concat (map (\<lambda>iframe.
       let raw = orElse (attr_src iframe) (orElse (attr_data_src iframe) (attr_data_lazy_src iframe));
           normalized = normalizeUrl E raw url
       in case normalized of
            None \<Rightarrow> []
          | Some n \<Rightarrow> if n \<noteq> [] \<and> n \<noteq> url \<and> n \<notin> vis then [n] else []) frames)"

definition pickIframe :: "env \<Rightarrow> string \<Rightarrow> string set \<Rightarrow> tag list \<Rightarrow> string option" where
  "pickIframe E url vis frames =
     (case iframeUrls E url vis frames of [] \<Rightarrow> None | first # others \<Rightarrow> Some first)"

text \<open>
  \<^verbatim>\<open>pickFromScripts\<close>: the candidates found in the scripts are normalized and filtered
  like the iframes; a video URL among them comes first, then a URL to follow, then the
  first candidate.
\<close>

definition allCandidates :: "env \<Rightarrow> string \<Rightarrow> string set \<Rightarrow> string list \<Rightarrow> string list" where
  "allCandidates E url vis matches =
     concat (map (\<lambda>candidate.
       if candidate = [] then []
       else case normalizeUrl E (Some candidate) url of
              None \<Rightarrow> []
            | Some n \<Rightarrow> if n \<noteq> [] \<and> n \<noteq> url \<and> n \<notin> vis then [n] else []) matches)"

definition pickFromScripts :: "env \<Rightarrow> string \<Rightarrow> string set \<Rightarrow> string list \<Rightarrow> string option" where
  "pickFromScripts E url vis matches =
     (let cands = allCandidates E url vis matches in
      case find isVideoUrl cands of
        Some videoUrl \<Rightarrow> Some videoUrl
      | None \<Rightarrow>
          (case find (\<lambda>u. needsFollow E u \<or> includesStr u ''/embed/'' \<or> includesStr u ''/player/'') cands of
             Some embedUrl \<Rightarrow> Some embedUrl
           | None \<Rightarrow> (case cands of [] \<Rightarrow> None | first # others \<Rightarrow> Some first)))"

definition iframeNotToonstream :: "string \<Rightarrow> bool" where
  "iframeNotToonstream iframeUrl =
     (\<not> includesStr iframeUrl ''toonstream.one'' \<and> \<not> includesStr iframeUrl ''trembed''
      \<and> \<not> includesStr iframeUrl ''trid='' \<and> \<not> includesStr iframeUrl ''trtype='')"

text \<open>The known player hosts and paths, in the order of the source.\<close>

definition playerMarkers :: "string list" where
  "playerMarkers =
     [''play.'', ''player.'', ''/video/'', ''/embed/'', ''/e/'', ''/t/'', ''zephyrflick'',
      ''filemoon'', ''streamtape'', ''dood'', ''voe.sx'', ''mixdrop'', ''emturbovid'',
      ''turbovid'', ''vidmoly'', ''streamwish'', ''vidhide'', ''vidguard'', ''vidsrc'',
      ''embedsito'', ''upstream'', ''mp4upload'', ''okru'', ''sbplay'', ''streamsb'',
      ''vidcloud'', ''goload'', ''gogo'']"

definition isVideoPlayer :: "string \<Rightarrow> bool" where
  "isVideoPlayer iframeUrl = list_ex (includesStr iframeUrl) playerMarkers"

text \<open>
  What one hop decides once its page is loaded: \<open>Return r\<close> for \<^verbatim>\<open>return r\<close>, and
  \<open>Recurse next\<close> for \<^verbatim>\<open>return resolve(next, depth + 1)\<close>. A block of the source
  that may return early is an optional decision, \<open>None\<close> when control leaves the block
  without returning.
\<close>

datatype step = Return "string option" | Recurse "string option"

definition resolveStep :: "env \<Rightarrow> string \<Rightarrow> nat \<Rightarrow> string set \<Rightarrow> document \<Rightarrow> step" where
  "resolveStep E url depth vis doc =
     (let directVideo = pickDirectVideo E url (videoTags doc) in
      if truthyAnd directVideo isVideoUrl then Return directVideo
      else
        let iframeUrl = pickIframe E url vis (iframes doc) in
        case (if truthy iframeUrl \<and> int depth < MAX_DEPTH E then
                if truthyAnd iframeUrl (\<lambda>i. iframeNotToonstream i \<and> (isVideoPlayer i \<or> isVideoUrl i))
                  then Some (Return iframeUrl)
                else if truthyAnd iframeUrl (\<lambda>i. iframeNotToonstream i \<and> startsWith i ''http'')
                  then Some (Return iframeUrl)
                else if truthyAnd iframeUrl (needsFollow E) then Some (Recurse iframeUrl)
                else None
              else None) of
          Some decision \<Rightarrow> decision
        | None \<Rightarrow>
            let scriptUrl = pickFromScripts E url vis (scriptMatches doc) in
            case (if truthy scriptUrl then
                    if truthyAnd scriptUrl isVideoUrl then Some (Return scriptUrl)
                    else if truthyAnd scriptUrl (needsFollow E) \<and> int depth < MAX_DEPTH E
                      then Some (Recurse scriptUrl)
                    else None
                  else None) of
              Some decision \<Rightarrow> decision
            | None \<Rightarrow>
                if truthy iframeUrl \<and> int depth < MAX_DEPTH E then Recurse iframeUrl
                else Return (orElse directVideo (Some url)))"

text \<open>
  \<^verbatim>\<open>
  const resolve = async (url, depth = 0) => {
    if (!url) return null;
    if (visited.has(url)) return url;
    if (depth > MAX_DEPTH) return url;
    visited.add(url);
    let html;
    try { html = await fetchHtmlWithRetry(url, CONFIG.maxRetries, {...}); }
    catch (err) { return null; }
    const $ = cheerio.load(html);
    ...
  };
  \<close>
\<close>

function resolve :: "env \<Rightarrow> string option \<Rightarrow> nat \<Rightarrow> rstate \<Rightarrow> string option \<times> rstate" where
  "resolve E url depth st =
     (case url of
        None \<Rightarrow> (None, st)
      | Some u \<Rightarrow>
          if u = [] then (None, st)
          else if u \<in> visited st then (Some u, st)
          else if int depth > MAX_DEPTH E then (Some u, st)
          else
            let st1 = st\<lparr>visited := insert u (visited st), trace := trace st @ [Visited u]\<rparr>;
                fetched = fetchHtmlWithRetry E u maxRetries (trace st1);
                st2 = st1\<lparr>trace := snd fetched\<rparr>
            in case fst fetched of
                 Inl err \<Rightarrow> (None, st2)
               | Inr html \<Rightarrow>
                   (case resolveStep E u depth (visited st2) (cheerioLoad E html) of
                      Return r \<Rightarrow> (r, st2)
                    | Recurse next \<Rightarrow> resolve E next (depth + 1) st2))"
  by pat_completeness auto
termination
  by (relation "measure (\<lambda>(E, url, depth, st). nat (MAX_DEPTH E + 1 - int depth))") auto

declare resolve.simps [simp del]

text \<open>
  \<^verbatim>\<open>extractRealVideoUrl(intermediateUrl, options)\<close>: a fresh visited-set, then
  \<^verbatim>\<open>resolve(intermediateUrl, 0)\<close>. The caller receives the first component; the
  final state is kept for the properties.
\<close>

definition extractRealVideoUrl :: "env \<Rightarrow> string option \<Rightarrow> event list \<Rightarrow> string option \<times> rstate" where
  "extractRealVideoUrl E intermediateUrl tr =
     resolve E intermediateUrl 0 \<lparr>visited = {}, trace = tr\<rparr>"

text \<open>The URLs for which a fetch was started, in order.\<close>

fun fetchesOf :: "event list \<Rightarrow> string list" where
  "fetchesOf [] = []"
| "fetchesOf (Fetch u # es) = u # fetchesOf es"
| "fetchesOf (e # es) = fetchesOf es"

text \<open>
  The state after one hop has marked \<open>u\<close> visited and fetched its page.
\<close>

definition afterFetch :: "env \<Rightarrow> string \<Rightarrow> rstate \<Rightarrow> rstate" where
  "afterFetch E u st =
     st\<lparr>visited := insert u (visited st),
        trace := snd (fetchHtmlWithRetry E u maxRetries (trace st @ [Visited u]))\<rparr>"

text \<open>
  In a list of events, every fetch of a URL comes after the URL was added to the
  visited-set.
\<close>

definition visitedBeforeFetch :: "event list \<Rightarrow> bool" where
  "visitedBeforeFetch evs =
     (\<forall>i < length evs. \<forall>u. evs ! i = Fetch u \<longrightarrow> Visited u \<in> set (take i evs))"

section \<open>Embeds of an episode page\<close>

text \<open>
  The number shown in a server's name and stored as its \<^verbatim>\<open>option\<close>: either
  \<^verbatim>\<open>parseInt(nume) + 1\<close> for a player option, kept as the attribute it is computed
  from, or \<^verbatim>\<open>serverOptions.length + 1\<close> for an iframe.
\<close>

datatype ordinal = NumePlusOne string | Count nat

record serverOption =
  server_ordinal :: ordinal
  trembedUrl :: "string option"
  directUrl :: "string option"

record embed =
  embed_ordinal :: ordinal               \<comment> \<open>\<^verbatim>\<open>name\<close> and \<^verbatim>\<open>option\<close>\<close>
  embed_url :: string                    \<comment> \<open>\<^verbatim>\<open>url\<close> and \<^verbatim>\<open>real_video\<close>\<close>
  intermediate_url :: "string option"

text \<open>
  The first loop of \<^verbatim>\<open>extractEmbeds\<close>, over the player options: each option with a
  post and a number gives the redirector URL
  \<^verbatim>\<open>https://toonstream.one/?trembed=${nume}&trid=${post}&trtype=${type || '2'}\<close>,
  added once.
\<close>

fun addPlayerOptions ::
  "playerOption list \<Rightarrow> serverOption list \<times> string set \<Rightarrow> serverOption list \<times> string set"
where
  "addPlayerOptions [] acc = acc"
| "addPlayerOptions (el # els) (serverOptions, seen) =
     (case (data_post el, data_nume el) of
        (Some post, Some nume) \<Rightarrow>
          if post \<noteq> [] \<and> nume \<noteq> [] then
            (let type = orDefault (data_type el) ''2'';
                 url = ''https://toonstream.one/?trembed='' @ nume @ ''&trid='' @ post
                         @ ''&trtype='' @ type
             in if url \<notin> seen then
                  addPlayerOptions els
                    (serverOptions @ [\<lparr>server_ordinal = NumePlusOne nume, trembedUrl = Some url,
                                        directUrl = None\<rparr>],
                     insert url seen)
                else addPlayerOptions els (serverOptions, seen))
          else addPlayerOptions els (serverOptions, seen)
      | _ \<Rightarrow> addPlayerOptions els (serverOptions, seen))"

text \<open>
  The second loop, over the iframes of the page: a normalized URL not seen before is a
  direct server when it carries none of \<open>toonstream.one\<close>, \<open>trembed\<close>, \<open>trid=\<close>, and a
  redirector to resolve otherwise.
\<close>

fun addIframes ::
  "env \<Rightarrow> tag list \<Rightarrow> serverOption list \<times> string set \<Rightarrow> serverOption list \<times> string set"
where
  "addIframes E [] acc = acc"
| "addIframes E (el # els) (serverOptions, seen) =
     (let src = orElse (attr_src el) (orElse (attr_data_src el) (attr_data_lazy_src el)) in
      case normalizeUrl E src (homeUrl E) of
        None \<Rightarrow> addIframes E els (serverOptions, seen)
      | Some url \<Rightarrow>
          if url \<noteq> [] \<and> url \<notin> seen then
            (let isExternal = (\<not> includesStr url ''toonstream.one'' \<and> \<not> includesStr url ''trembed''
                                \<and> \<not> includesStr url ''trid='')
             in addIframes E els
                  (serverOptions @ [\<lparr>server_ordinal = Count (length serverOptions + 1),
                                      trembedUrl = (if isExternal then None else Some url),
                                      directUrl = (if isExternal then Some url else None)\<rparr>],
                   insert url seen))
          else addIframes E els (serverOptions, seen))"

text \<open>
  The test of the third loop on what the resolver returned:
  \<^verbatim>\<open>
  realVideoUrl && realVideoUrl !== server.trembedUrl &&
  !realVideoUrl.includes('toonstream.one') && !realVideoUrl.includes('trembed')
  \<close>
\<close>

definition usable :: "string option \<Rightarrow> string option \<Rightarrow> bool" where
  "usable realVideoUrl candidate =
     truthyAnd realVideoUrl (\<lambda>v. Some v \<noteq> candidate \<and> \<not> includesStr v ''toonstream.one''
                                  \<and> \<not> includesStr v ''trembed'')"

text \<open>
  The third loop: a direct server is taken as it is; a redirector is resolved, taken
  when the result is usable and skipped otherwise, and followed by a delay of 300 ms.
\<close>

fun embedsLoop :: "env \<Rightarrow> serverOption list \<Rightarrow> embed list \<Rightarrow> event list \<Rightarrow> embed list \<times> event list" where
  "embedsLoop E [] embeds tr = (embeds, tr)"
| "embedsLoop E (server # rest) embeds tr =
     (if truthy (directUrl server) then
        embedsLoop E rest
          (embeds @ [\<lparr>embed_ordinal = server_ordinal server,
                       embed_url = orDefault (directUrl server) [],
                       intermediate_url = None\<rparr>]) tr
      else if truthy (trembedUrl server) then
        (let resolved = extractRealVideoUrl E (trembedUrl server) tr;
             realVideoUrl = fst resolved;
             tr1 = trace (snd resolved) @ [Delay 300]
         in if usable realVideoUrl (trembedUrl server) then
              embedsLoop E rest
                (embeds @ [\<lparr>embed_ordinal = server_ordinal server,
                             embed_url = orDefault realVideoUrl [],
                             intermediate_url = trembedUrl server\<rparr>]) tr1
            else embedsLoop E rest embeds tr1)
      else embedsLoop E rest embeds tr)"

definition serverOptionsOf :: "env \<Rightarrow> document \<Rightarrow> serverOption list" where
  "serverOptionsOf E doc =
     fst (addIframes E (iframes doc) (addPlayerOptions (playerOptions doc) ([], {})))"

definition extractEmbeds :: "env \<Rightarrow> string \<Rightarrow> string \<Rightarrow> event list \<Rightarrow> embed list \<times> event list" where
  "extractEmbeds E html episodeUrl tr =
     embedsLoop E (serverOptionsOf E (cheerioLoad E html)) [] tr"

text \<open>The test \<^verbatim>\<open>isExternal\<close> of the second loop.\<close>

definition externalUrl :: "string \<Rightarrow> bool" where
  "externalUrl url = (\<not> includesStr url ''toonstream.one'' \<and> \<not> includesStr url ''trembed''
                        \<and> \<not> includesStr url ''trid='')"

text \<open>A server with a direct URL has an external one.\<close>

definition directServerOk :: "serverOption \<Rightarrow> bool" where
  "directServerOk s = (truthy (directUrl s) \<longrightarrow> externalUrl (orDefault (directUrl s) []))"

text \<open>
  An entry of the embeds list is resolved: with an intermediate URL, its URL is what a
  resolution of that URL returned, is not empty, differs from it and names neither the
  source site nor a redirector; without one, its URL is external.
\<close>

definition entryResolved :: "env \<Rightarrow> embed \<Rightarrow> bool" where
  "entryResolved E e =
     (case intermediate_url e of
        Some t \<Rightarrow>
          embed_url e \<noteq> [] \<and> embed_url e \<noteq> t
          \<and> \<not> includesStr (embed_url e) ''toonstream.one'' \<and> \<not> includesStr (embed_url e) ''trembed''
          \<and> (\<exists>tr'. fst (extractRealVideoUrl E (Some t) tr') = Some (embed_url e))
      | None \<Rightarrow> embed_url e \<noteq> [] \<and> externalUrl (embed_url e))"

section \<open>Building an episode record\<close>

text \<open>
  Of the hints only the episode code matters here, and of the record the series, the
  code and the servers: titles and images are chosen among values that are present and
  cannot fail.
\<close>

record hints =
  hint_code :: "episodeCode option"

record episodeRecord =
  seriesCtx :: string
  code :: episodeCode
  servers :: "embed list"

text \<open>
  \<^verbatim>\<open>
  const episodeHtml = await fetchHtmlWithRetry(episodeUrl, CONFIG.maxRetries, {...});
  ...
  const seriesCtx = await resolveSeriesContext(derivedSeriesUrl, fallbackTitle);
  const code = hints.code || parseEpisodeCode(episodeUrl) ||
    { season: 1, episode: Math.floor(Date.now() / 1000) };
  const embeds = await extractEmbeds(episodeHtml, episodeUrl);
  ...
  return { seriesCtx, code, episodePayload };
  \<close>
  An exception of the fetch or of the series context leaves the function. The requests
  that the series context and the image look-up send on their own are not recorded.
\<close>

definition buildEpisodeRecord ::
  "env \<Rightarrow> string \<Rightarrow> hints \<Rightarrow> event list \<Rightarrow> (exn + episodeRecord) \<times> event list"
where
  "buildEpisodeRecord E episodeUrl hnts tr =
     (let fetched = fetchHtmlWithRetry E episodeUrl maxRetries tr; tr1 = snd fetched in
      case fst fetched of
        Inl err \<Rightarrow> (Inl err, tr1)
      | Inr episodeHtml \<Rightarrow>
          (case seriesContext E tr1 episodeHtml episodeUrl of
             Inl err \<Rightarrow> (Inl err, tr1)
           | Inr ctx \<Rightarrow>
               (let cd = (case hint_code hnts of
                            Some c \<Rightarrow> c
                          | None \<Rightarrow>
                              (case parseEpisodeCode episodeUrl of
                                 Some c \<Rightarrow> c
                               | None \<Rightarrow>
                                   \<lparr>season = Finite 1,
                                    episode = Finite (dateNow E tr1 div 1000)\<rparr>));
                    embeds = extractEmbeds E episodeHtml episodeUrl tr1
                in (Inr \<lparr>seriesCtx = ctx, code = cd, servers = fst embeds\<rparr>, snd embeds))))"

section \<open>Episode links of a series page\<close>

record episodeLink = episodeCode +
  link_url :: string
  link_title :: string
  link_thumb :: "string option"

text \<open>The selector \<^verbatim>\<open>a[href*="/episode/"]\<close>.\<close>

definition episodeAnchors :: "document \<Rightarrow> anchor list" where
  "episodeAnchors doc =
     filter (\<lambda>a. case attr_href a of None \<Rightarrow> False | Some h \<Rightarrow> includesStr h ''/episode/'')
       (anchors doc)"

text \<open>
  The part of \<^verbatim>\<open>addLink\<close> before the look-up in \<^verbatim>\<open>seen\<close>: the link an anchor
  stands for, if any.
\<close>

definition linkOf :: "env \<Rightarrow> string \<Rightarrow> anchor \<Rightarrow> episodeLink option" where
  "linkOf E seriesUrl node =
     (case normalizeUrl E (attr_href node) seriesUrl of
        None \<Rightarrow> None
      | Some url \<Rightarrow>
          if url = [] \<or> \<not> includesStr url ''/episode/'' then None
          else case parseEpisodeCode url of
                 None \<Rightarrow> None
               | Some cd \<Rightarrow>
                   Some \<lparr>season = season cd, episode = episode cd, link_url = url,
                         link_title = anchor_text node,
                         link_thumb =
                           (case anchor_img node of
                              None \<Rightarrow> None
                            | Some img \<Rightarrow>
                                normalizeUrl E (orElse (attr_data_src img) (attr_src img)) seriesUrl)\<rparr>)"

text \<open>
  The key \<^verbatim>\<open>`${code.season}x${code.episode}`\<close> names the pair of numbers, so the set
  \<^verbatim>\<open>seen\<close> is kept as a set of pairs.
\<close>

definition linkKey :: "episodeLink \<Rightarrow> number \<times> number" where
  "linkKey l = (season l, episode l)"

fun addLinks ::
  "env \<Rightarrow> string \<Rightarrow> anchor list \<Rightarrow> episodeLink list \<times> (number \<times> number) set \<Rightarrow>
     episodeLink list \<times> (number \<times> number) set"
where
  "addLinks E seriesUrl [] acc = acc"
| "addLinks E seriesUrl (node # nodes) (links, seen) =
     (case linkOf E seriesUrl node of
        None \<Rightarrow> addLinks E seriesUrl nodes (links, seen)
      | Some l \<Rightarrow>
          if linkKey l \<in> seen then addLinks E seriesUrl nodes (links, seen)
          else addLinks E seriesUrl nodes (links @ [l], insert (linkKey l) seen))"

text \<open>
  The comparator of the final sort:
  \<^verbatim>\<open>
  (a, b) => { if (a.season === b.season) return a.episode - b.episode;
              return a.season - b.season; }
  \<close>
\<close>

definition compareLinks :: "episodeLink \<Rightarrow> episodeLink \<Rightarrow> difference" where
  "compareLinks a b =
     (if season a = season b then jsMinus (episode a) (episode b)
      else jsMinus (season a) (season b))"

text \<open>
  \<^verbatim>\<open>links.sort(compare)\<close>. The sort of JavaScript is stable and takes a
  comparator value that is not greater than zero, \<^verbatim>\<open>NaN\<close> included, as leaving the
  two in their order, so with this comparator its result is the one of a stable
  insertion sort.
\<close>

fun insertLink :: "episodeLink \<Rightarrow> episodeLink list \<Rightarrow> episodeLink list" where
  "insertLink x [] = [x]"
| "insertLink x (y # ys) =
     (if \<not> positive (compareLinks x y) then x # y # ys else y # insertLink x ys)"

definition sortLinks :: "episodeLink list \<Rightarrow> episodeLink list" where
  "sortLinks links = foldr insertLink links []"

definition extractSeriesEpisodeLinks :: "env \<Rightarrow> string \<Rightarrow> string \<Rightarrow> episodeLink list" where
  "extractSeriesEpisodeLinks E seriesHtml seriesUrl =
     sortLinks (fst (addLinks E seriesUrl (episodeAnchors (cheerioLoad E seriesHtml)) ([], {})))"

text \<open>The links of the anchors in document order, before duplicates are dropped.\<close>

definition candidateLinks :: "env \<Rightarrow> string \<Rightarrow> string \<Rightarrow> episodeLink list" where
  "candidateLinks E seriesHtml seriesUrl =
     List.map_filter (linkOf E seriesUrl) (episodeAnchors (cheerioLoad E seriesHtml))"

text \<open>Season first, episode to break ties.\<close>

definition codeBefore :: "episodeLink \<Rightarrow> episodeLink \<Rightarrow> bool" where
  "codeBefore a b =
     (numLess (season a) (season b) \<or> (season a = season b \<and> numLess (episode a) (episode b)))"

text \<open>
  The first link of every key that is not in \<open>seen\<close>, in the order of the list: what
  the loop over the anchors keeps.
\<close>

fun firstByKey :: "(number \<times> number) set \<Rightarrow> episodeLink list \<Rightarrow> episodeLink list" where
  "firstByKey seen [] = []"
| "firstByKey seen (c # cs) =
     (if linkKey c \<in> seen then firstByKey seen cs
      else c # firstByKey (insert (linkKey c) seen) cs)"

text \<open>The comparator puts \<open>a\<close> before or level with \<open>b\<close>.\<close>

definition codeLeq :: "episodeLink \<Rightarrow> episodeLink \<Rightarrow> bool" where
  "codeLeq a b = (\<not> positive (compareLinks a b))"

section \<open>The Cloudflare Worker variant\<close>

text \<open>\<^verbatim>\<open>String(n)\<close> for a natural number.\<close>

function showNat :: "nat \<Rightarrow> string" where
  "showNat n =
     (if n < 10 then [''0123456789'' ! n]
      else showNat (n div 10) @ [''0123456789'' ! (n mod 10)])"
  by pat_completeness auto
termination
  by (relation "measure id") auto

declare showNat.simps [simp del]

record wepisode =
  animeSlug :: string
  ep_season :: nat
  ep_episode :: nat
  ep_url :: string

text \<open>
  What the Worker runs against. \<open>workerFetch log url\<close> is the answer of \<^verbatim>\<open>fetch(url)\<close>
  after the requests in \<open>log\<close>. The four scans of a page by regular expression are
  taken as they are: the episodes of the homepage, the redirector URLs of an episode
  page, the \<^verbatim>\<open>src\<close> values of the iframes of a page, and the target of a script
  redirect. The store answers whether an episode row exists and whether an upsert
  fails; \<open>kvReadable\<close> tells whether the resume index can be read at the start of the
  run.

  The counter of subrequests is a variable of the module, shared by every \<^verbatim>\<open>runSync\<close>
  that the isolate has started and not finished: \<^verbatim>\<open>fetch\<close> and \<^verbatim>\<open>scheduled\<close> start
  one with \<^verbatim>\<open>ctx.waitUntil(runSync(env))\<close> whether or not another is under way. While
  a run waits at an \<^verbatim>\<open>await\<close> the others go on, and \<open>otherRuns W k n\<close> is the value
  they leave in the counter when this run resumes from its \<open>k\<close>-th wait, having left
  \<open>n\<close> there itself. For a run that has the isolate to itself it is \<open>n\<close>.
\<close>

record wenv =
  workerFetch :: "string list \<Rightarrow> string \<Rightarrow> httpResult"
  extractEpisodesFromHomepage :: "string \<Rightarrow> wepisode list"
  extractTrembedUrls :: "string \<Rightarrow> string list"
  iframeMatches :: "string \<Rightarrow> string list"
  locationMatch :: "string \<Rightarrow> string option"
  existing :: "wepisode \<Rightarrow> bool"
  upsertFails :: "wepisode \<Rightarrow> bool"
  kvReadable :: bool
  otherRuns :: "nat \<Rightarrow> nat \<Rightarrow> nat"

text \<open>
  The state of the Worker as one run sees it: the module-level counter, the pages
  requested by this run, the resume index in the key-value store, the variables of
  \<^verbatim>\<open>runSync\<close>, and the number of times the run has waited so far.
\<close>

record wstate =
  subrequestCount :: nat
  fetchLog :: "string list"
  progress :: nat
  syncedCount :: nat
  skippedCount :: nat
  processedIndex :: nat
  awaits :: nat

definition MAX_SUBREQUESTS :: nat where
  "MAX_SUBREQUESTS = 45"

definition canFetch :: "wstate \<Rightarrow> bool" where
  "canFetch st = (subrequestCount st < MAX_SUBREQUESTS)"

text \<open>
  An \<^verbatim>\<open>await\<close> of the network, of the key-value store or of the database: the run
  is suspended and finds the counter as the other runs have left it. Successive waits
  with no reading of the counter between them are one step.
\<close>

definition suspend :: "wenv \<Rightarrow> wstate \<Rightarrow> wstate" where
  "suspend W st =
     st\<lparr>subrequestCount := otherRuns W (awaits st) (subrequestCount st), awaits := awaits st + 1\<rparr>"

text \<open>No other run is under way.\<close>

definition alone :: "wenv \<Rightarrow> bool" where
  "alone W = (\<forall>k n. otherRuns W k n = n)"

text \<open>
  \<^verbatim>\<open>subrequestCount++\<close> in \<^verbatim>\<open>fetchHtml\<close>, with the request entered in the log of the
  run; the request itself follows without a wait in between.
\<close>

definition countRequest :: "string \<Rightarrow> wstate \<Rightarrow> wstate" where
  "countRequest url st =
     st\<lparr>subrequestCount := subrequestCount st + 1, fetchLog := fetchLog st @ [url]\<rparr>"

text \<open>
  \<^verbatim>\<open>
  async function fetchHtml(url) {
    if (!canFetch()) { throw new Error("Subrequest limit reached"); }
    subrequestCount++;
    const response = await fetch(url, {...});
    if (!response.ok) { throw new Error(`HTTP ${response.status}`); }
    return await response.text();
  }
  \<close>
\<close>

definition fetchHtml :: "wenv \<Rightarrow> string \<Rightarrow> wstate \<Rightarrow> (exn + string) \<times> wstate" where
  "fetchHtml W url st =
     (if \<not> canFetch st then (Inl (JsError ''Subrequest limit reached''), st)
      else
        let st1 = suspend W (countRequest url st)
        in case workerFetch W (fetchLog st) url of
             ConnectionError m \<Rightarrow> (Inl (JsError m), st1)
           | Response status body \<Rightarrow>
               if 200 \<le> status \<and> status \<le> 299 then (Inr body, st1)
               else (Inl (JsError (''HTTP '' @ showNat status)), st1))"

text \<open>
  \<^verbatim>\<open>getProgress(env)\<close>: the stored resume index, and 0 when it cannot be read.
\<close>

definition getProgress :: "wenv \<Rightarrow> wstate \<Rightarrow> nat" where
  "getProgress W st = (if kvReadable W then progress st else 0)"

text \<open>\<^verbatim>\<open>if (u.startsWith('//')) u = 'https:' + u\<close>\<close>

definition withScheme :: "string \<Rightarrow> string" where
  "withScheme u = (if startsWith u ''//'' then ''https:'' @ u else u)"

text \<open>
  How the loop over the iframes ends: with a \<^verbatim>\<open>return\<close> of a URL out of
  \<^verbatim>\<open>resolveVideoUrl\<close>, or after the last iframe.
\<close>

datatype loopExit = Returned string | Completed

text \<open>
  \<^verbatim>\<open>resolveVideoUrl(trembedUrl, depth)\<close> and the loop over the iframes of the fetched
  page inside it. Whatever is thrown inside \<^verbatim>\<open>resolveVideoUrl\<close> is caught and gives
  null.
\<close>

function resolveVideoUrl :: "wenv \<Rightarrow> string \<Rightarrow> nat \<Rightarrow> wstate \<Rightarrow> string option \<times> wstate"
  and iframeLoop :: "wenv \<Rightarrow> string list \<Rightarrow> nat \<Rightarrow> wstate \<Rightarrow> loopExit \<times> wstate"
where
  "resolveVideoUrl W url depth st =
     (if depth > 3 \<or> \<not> canFetch st then (None, st)
      else
        let fetched = fetchHtml W url st in
        case fst fetched of
          Inl err \<Rightarrow> (None, snd fetched)
        | Inr html \<Rightarrow>
            (let found = iframeLoop W (iframeMatches W html) depth (snd fetched) in
             case fst found of
               Returned embedUrl \<Rightarrow> (Some embedUrl, snd found)
             | Completed \<Rightarrow>
                 (case locationMatch W html of
                    None \<Rightarrow> (None, snd found)
                  | Some target \<Rightarrow>
                      let redirectUrl = withScheme target in
                      if \<not> includesStr redirectUrl ''toonstream.one''
                         \<and> \<not> includesStr redirectUrl ''trembed''
                      then (Some redirectUrl, snd found)
                      else (None, snd found))))"
| "iframeLoop W [] depth st = (Completed, st)"
| "iframeLoop W (m # ms) depth st =
     (let embedUrl = withScheme m in
      if \<not> includesStr embedUrl ''toonstream.one'' \<and> \<not> includesStr embedUrl ''trembed''
         \<and> \<not> includesStr embedUrl ''trid=''
      then (Returned embedUrl, st)
      else if includesStr embedUrl ''trembed'' \<or> includesStr embedUrl ''trid='' then
        (let resolved = resolveVideoUrl W embedUrl (depth + 1) st in
         if truthy (fst resolved) then (Returned (orDefault (fst resolved) []), snd resolved)
         else iframeLoop W ms depth (snd resolved))
      else iframeLoop W ms depth st)"
  by pat_completeness auto
termination
  by (relation "inv_image (less_than <*lex*> less_than)
        (\<lambda>x. case x of
                Inl (W, u, depth, st) \<Rightarrow> (2 * (4 - depth), 0)
              | Inr (W, ms, depth, st) \<Rightarrow> (2 * (4 - depth) - 1, length ms))")
     auto

declare resolveVideoUrl.simps [simp del]

text \<open>
  The loop of \<^verbatim>\<open>runSync\<close> over the redirector URLs of one episode:
  \<^verbatim>\<open>
  for (const trembedUrl of trembedUrls) {
    if (!canFetch()) break;
    videoUrl = await resolveVideoUrl(trembedUrl, 0);
    if (videoUrl) break;
  }
  \<close>
\<close>

fun serverLoop :: "wenv \<Rightarrow> string list \<Rightarrow> string option \<Rightarrow> wstate \<Rightarrow> string option \<times> wstate" where
  "serverLoop W [] videoUrl st = (videoUrl, st)"
| "serverLoop W (url # rest) videoUrl st =
     (if \<not> canFetch st then (videoUrl, st)
      else
        let resolved = resolveVideoUrl W url 0 st in
        if truthy (fst resolved) then resolved
        else serverLoop W rest (fst resolved) (snd resolved))"

text \<open>\<^verbatim>\<open>await saveProgress(env, i)\<close>\<close>

definition saveProgress :: "wenv \<Rightarrow> nat \<Rightarrow> wstate \<Rightarrow> wstate" where
  "saveProgress W i st = suspend W (st\<lparr>progress := i\<rparr>)"

text \<open>
  The loop of \<^verbatim>\<open>runSync\<close> over the episodes, from index \<open>i\<close> on: the remaining
  episodes are the argument, \<^verbatim>\<open>continue\<close> goes on with the rest at \<open>i + 1\<close>, and
  \<^verbatim>\<open>break\<close> returns the state. The run waits for the database when it asks
  whether the episode exists, and again when it stores a resolved episode.
\<close>

fun episodeLoop :: "wenv \<Rightarrow> wepisode list \<Rightarrow> nat \<Rightarrow> wstate \<Rightarrow> wstate" where
  "episodeLoop W [] i st = st"
| "episodeLoop W (ep # rest) i st =
     (if \<not> canFetch st then saveProgress W i st
      else
        let st1 = suspend W (st\<lparr>processedIndex := i\<rparr>) in
        if existing W ep then episodeLoop W rest (i + 1) (st1\<lparr>skippedCount := skippedCount st1 + 1\<rparr>)
        else if \<not> canFetch st1 then saveProgress W i st1
        else
          let fetched = fetchHtml W (ep_url ep) st1 in
          case fst fetched of
            Inl err \<Rightarrow> episodeLoop W rest (i + 1) (snd fetched)
          | Inr episodeHtml \<Rightarrow>
              (let trembedUrls = extractTrembedUrls W episodeHtml in
               if trembedUrls = [] then episodeLoop W rest (i + 1) (snd fetched)
               else
                 let resolved = serverLoop W trembedUrls None (snd fetched) in
                 if \<not> truthy (fst resolved) then episodeLoop W rest (i + 1) (snd resolved)
                 else
                   let st2 = suspend W (snd resolved) in
                   if upsertFails W ep then episodeLoop W rest (i + 1) st2
                   else episodeLoop W rest (i + 1) (st2\<lparr>syncedCount := syncedCount st2 + 1\<rparr>)))"

datatype syncResult = SyncFailed string | SyncDone nat nat

text \<open>
  \<^verbatim>\<open>subrequestCount = 0\<close>, the first statement of \<^verbatim>\<open>runSync\<close>. The log of the
  requests and the count of the waits start empty with the run.
\<close>

definition startRun :: "wstate \<Rightarrow> wstate" where
  "startRun st0 = st0\<lparr>subrequestCount := 0, fetchLog := [], awaits := 0\<rparr>"

text \<open>
  \<^verbatim>\<open>runSync(env)\<close>: the counter is set to zero, the homepage is fetched, and the
  episodes found there are worked off from the resume index on.
\<close>

definition runSync :: "wenv \<Rightarrow> wstate \<Rightarrow> syncResult \<times> wstate" where
  "runSync W st0 =
     (let st = startRun st0;
          fetched = fetchHtml W ''https://toonstream.one/'' st
      in case fst fetched of
           Inl (JsError m) \<Rightarrow> (SyncFailed m, snd fetched)
         | Inr html \<Rightarrow>
             (let episodes = extractEpisodesFromHomepage W html in
              if episodes = [] then (SyncDone 0 0, snd fetched)
              else
                let lastIndex = getProgress W (snd fetched);
                    startIndex = (if lastIndex \<ge> length episodes then 0 else lastIndex);
                    st1 = (suspend W (snd fetched))\<lparr>syncedCount := 0, skippedCount := 0,
                                                      processedIndex := startIndex\<rparr>;
                    st2 = episodeLoop W (drop startIndex episodes) startIndex st1;
                    st3 = (if processedIndex st2 \<ge> length episodes - 1 then saveProgress W 0 st2
                           else st2)
                in (SyncDone (syncedCount st3) (skippedCount st3), st3)))"

text \<open>
  The counter counts the pages requested by the run and has not passed the limit.
\<close>

definition withinLimit :: "wstate \<Rightarrow> bool" where
  "withinLimit st = (subrequestCount st = length (fetchLog st) \<and> subrequestCount st \<le> MAX_SUBREQUESTS)"

section \<open>Example environments\<close>

text \<open>
  Environments for the examples: URLs are absolute and normalize to themselves, the
  host name is what stands between \<open>://\<close> and the path, the source site is the default
  one, and the depth limit is the default 3.
\<close>

definition hostnameOf :: "string \<Rightarrow> string option" where
  "hostnameOf url =
     (case dropWhile (\<lambda>c. c \<noteq> CHR '':'') url of
        c1 # c2 # c3 # rest \<Rightarrow>
          if [c2, c3] = ''//'' then Some (takeWhile (\<lambda>c. c \<notin> set ''/?#:'') rest) else None
      | _ \<Rightarrow> None)"

definition mkEnv :: "(event list \<Rightarrow> nat \<Rightarrow> string \<Rightarrow> httpResult) \<Rightarrow> (string \<Rightarrow> document) \<Rightarrow> env" where
  "mkEnv h c =
     \<lparr>httpGet = h, statusError = (\<lambda>status. ''Request failed''), cheerioLoad = c,
      urlHref = (\<lambda>raw base. Some raw), urlHostname = hostnameOf,
      homeUrl = ''https://toonstream.one/home/'', embedMaxDepth = 3,
      dateNow = (\<lambda>tr. 1700000000000), seriesContext = (\<lambda>tr html url. Inr ''naruto'')\<rparr>"

definition emptyDocument :: document where
  "emptyDocument = \<lparr>videoTags = [], iframes = [], scriptMatches = [], playerOptions = [], anchors = []\<rparr>"

text \<open>A site that answers 503 to the first request and 200 from then on.\<close>

definition flakyEnv :: env where
  "flakyEnv = mkEnv (\<lambda>tr n url. if length tr < 3 then Response 503 ''busy'' else Response 200 ''<html>'')
     (\<lambda>html. emptyDocument)"

text \<open>A site that refuses every connection.\<close>

definition downEnv :: env where
  "downEnv = mkEnv (\<lambda>tr n url. ConnectionError ''ECONNREFUSED'') (\<lambda>html. emptyDocument)"

text \<open>
  A site given by its pages: a request to a listed URL is answered 200 with a body
  that names the page, and loading that body gives the page; any other request fails.
\<close>

definition siteEnv :: "(string \<times> document) list \<Rightarrow> env" where
  "siteEnv pages =
     mkEnv (\<lambda>tr n url. case map_of pages url of
                           Some d \<Rightarrow> Response 200 url
                         | None \<Rightarrow> ConnectionError ''ENOTFOUND'')
           (\<lambda>html. case map_of pages html of Some d \<Rightarrow> d | None \<Rightarrow> emptyDocument)"

text \<open>An element whose only attribute is \<^verbatim>\<open>src\<close>.\<close>

definition tagWithSrc :: "string \<Rightarrow> tag" where
  "tagWithSrc u = \<lparr>attr_src = Some u, attr_data_src = None, attr_data_lazy_src = None\<rparr>"

text \<open>Two redirector pages of the source site that embed each other.\<close>

definition pageA :: string where "pageA = ''https://toonstream.one/?trembed=0&trid=7&trtype=2''"

definition pageB :: string where "pageB = ''https://toonstream.one/?trembed=1&trid=7&trtype=2''"

definition cycleEnv :: env where
  "cycleEnv = siteEnv
     [(pageA, emptyDocument\<lparr>iframes := [tagWithSrc pageB]\<rparr>),
      (pageB, emptyDocument\<lparr>iframes := [tagWithSrc pageA]\<rparr>)]"

text \<open>
  Pages for the examples of single hops: a video element without a video-like URL next
  to an external iframe, a video file next to the same iframe, the iframe alone, and an
  iframe to an external host over another scheme.
\<close>

definition clipUrl :: string where "clipUrl = ''https://cdn.example.com/media/clip''"

definition mp4Url :: string where "mp4Url = ''https://cdn.example.com/x.mp4''"

definition tapeUrl :: string where "tapeUrl = ''https://streamtape.com/e/abc''"

definition ftpUrl :: string where "ftpUrl = ''ftp://media.example.org/show/ep1''"

definition clipPage :: document where
  "clipPage = emptyDocument\<lparr>videoTags := [tagWithSrc clipUrl], iframes := [tagWithSrc tapeUrl]\<rparr>"


definition tapePage :: document where
  "tapePage = emptyDocument\<lparr>iframes := [tagWithSrc tapeUrl]\<rparr>"

definition ftpPage :: document where
  "ftpPage = emptyDocument\<lparr>iframes := [tagWithSrc ftpUrl]\<rparr>"




text \<open>
  An episode page with two player options: the redirector of the first embeds an
  external player, the redirector of the second cannot be fetched.
\<close>

definition episodeUrl25 :: string where
  "episodeUrl25 = ''https://toonstream.one/episode/naruto-2x5/''"

definition episodePage :: document where
  "episodePage = emptyDocument\<lparr>playerOptions :=
     [\<lparr>data_type = None, data_post = Some ''7'', data_nume = Some ''0''\<rparr>,
      \<lparr>data_type = Some ''2'', data_post = Some ''7'', data_nume = Some ''1''\<rparr>]\<rparr>"

definition episodeEnv :: env where
  "episodeEnv = siteEnv [(episodeUrl25, episodePage), (pageA, tapePage)]"

definition serverA :: serverOption where
  "serverA = \<lparr>server_ordinal = NumePlusOne ''0'', trembedUrl = Some pageA, directUrl = None\<rparr>"

definition serverB :: serverOption where
  "serverB = \<lparr>server_ordinal = NumePlusOne ''1'', trembedUrl = Some pageB, directUrl = None\<rparr>"

text \<open>
  The source site on another domain, as the setting \<^verbatim>\<open>TOONSTREAM_HOME_URL\<close> allows:
  the episode page has the same two player options, and the page behind the first
  redirector embeds a page of the site itself.
\<close>

definition mirrorHome :: string where "mirrorHome = ''https://toonstream.love/home/''"

definition mirrorUrl :: string where "mirrorUrl = ''https://toonstream.love/embed/naruto-2x5/''"

definition mirrorEpisodeUrl :: string where
  "mirrorEpisodeUrl = ''https://toonstream.love/episode/naruto-2x5/''"

definition mirrorPage :: document where
  "mirrorPage = emptyDocument\<lparr>iframes := [tagWithSrc mirrorUrl]\<rparr>"

definition mirrorEnv :: env where
  "mirrorEnv = (siteEnv [(mirrorEpisodeUrl, episodePage), (pageA, mirrorPage)])\<lparr>homeUrl := mirrorHome\<rparr>"

text \<open>An episode page whose URL carries no episode code, and a caller without hints.\<close>

definition specialUrl :: string where
  "specialUrl = ''https://toonstream.one/episode/naruto-special/''"

definition specialEnv :: env where
  "specialEnv = siteEnv [(specialUrl, emptyDocument)]"

definition noHints :: hints where
  "noHints = \<lparr>hint_code = None\<rparr>"

text \<open>
  A series page with four anchors: season 2 episode 1, season 1 episode 2 twice, and a
  link to another series.
\<close>

definition seriesUrl :: string where
  "seriesUrl = ''https://toonstream.one/series/naruto/''"

definition ep21Url :: string where
  "ep21Url = ''https://toonstream.one/episode/naruto-2x1/''"

definition ep12Url :: string where
  "ep12Url = ''https://toonstream.one/episode/naruto-1x2/''"

definition anchorTo :: "string \<Rightarrow> string \<Rightarrow> anchor" where
  "anchorTo u t = \<lparr>attr_href = Some u, anchor_text = t, anchor_img = None\<rparr>"

definition seriesPage :: document where
  "seriesPage = emptyDocument\<lparr>anchors :=
     [anchorTo ep21Url ''Episode 1'', anchorTo ep12Url ''Episode 2'', anchorTo ep12Url ''Watch'',
      anchorTo ''https://toonstream.one/series/bleach/'' ''Bleach'']\<rparr>"

definition seriesEnv :: env where
  "seriesEnv = siteEnv [(seriesUrl, seriesPage)]"

definition linkTo :: "nat \<Rightarrow> nat \<Rightarrow> string \<Rightarrow> string \<Rightarrow> episodeLink" where
  "linkTo s e u t =
     \<lparr>season = Finite s, episode = Finite e, link_url = u, link_title = t, link_thumb = None\<rparr>"

text \<open>
  A Worker world in which every page loads, the homepage lists sixty new episodes and no
  episode page has a server; and a Worker state that has used up its requests.
\<close>

definition busyEpisode :: "nat \<Rightarrow> wepisode" where
  "busyEpisode k =
     \<lparr>animeSlug = ''naruto'', ep_season = 1, ep_episode = k,
      ep_url = ''https://toonstream.one/episode/naruto-1x'' @ showNat k @ ''/''\<rparr>"

definition busyWorker :: wenv where
  "busyWorker =
     \<lparr>workerFetch = (\<lambda>log url. Response 200 url),
      extractEpisodesFromHomepage = (\<lambda>html. map busyEpisode [1..<61]),
      extractTrembedUrls = (\<lambda>html. []),
      iframeMatches = (\<lambda>html. []),
      locationMatch = (\<lambda>html. None),
      existing = (\<lambda>ep. False),
      upsertFails = (\<lambda>ep. False),
      kvReadable = True,
      otherRuns = (\<lambda>k n. n)\<rparr>"

definition idleState :: wstate where
  "idleState = \<lparr>subrequestCount = 45, fetchLog = [], progress = 0, syncedCount = 0,
                 skippedCount = 0, processedIndex = 0, awaits = 0\<rparr>"

text \<open>
  What a second \<^verbatim>\<open>runSync\<close> does to the counter, found at \<open>n\<close>, from its start to its
  first wait: it sets the counter to zero and counts its request for the homepage.
\<close>

definition secondRunStarts :: "nat \<Rightarrow> nat" where
  "secondRunStarts n =
     subrequestCount (countRequest ''https://toonstream.one/'' (startRun (idleState\<lparr>subrequestCount := n\<rparr>)))"

text \<open>
  The same site with a hundred episodes on its homepage, and a second run started
  while the first waits for its fortieth page, the thirty-ninth episode. The second
  run gets no homepage and ends, so it touches the counter only before its first
  wait. The first run has waited for the homepage, for the resume index, and twice for
  each episode, so the wait in question is its wait number 79, counted from 0.
\<close>

definition overlapWorker :: wenv where
  "overlapWorker =
     busyWorker\<lparr>extractEpisodesFromHomepage := (\<lambda>html. map busyEpisode [1..<101]),
                otherRuns := (\<lambda>k n. if k = 79 then secondRunStarts n else n)\<rparr>"

section \<open>Properties of episode codes\<close>

lemma isDigit_not_letter: "isCodeLetter c \<Longrightarrow> \<not> isDigit c"
  by (auto simp: isCodeLetter_def isDigit_def)

lemma takeWhile_digits_append:
  assumes "list_all isDigit ds" and "\<not> isDigit c"
  shows "takeWhile isDigit (ds @ c # r) = ds" and "dropWhile isDigit (ds @ c # r) = c # r"
  using assms by (induction ds) auto

lemma takeWhile_digits_prefix:
  "es \<noteq> [] \<Longrightarrow> list_all isDigit es \<Longrightarrow> takeWhile isDigit (es @ q) \<noteq> []"
  by (cases es) auto

lemma matchCodeAt_complete:
  assumes "digits ds" and "isCodeLetter c" and "digits es"
  shows "matchCodeAt (ds @ c # es @ q) \<noteq> None"
proof -
  have nd: "\<not> isDigit c" using assms(2) by (rule isDigit_not_letter)
  have ds: "ds \<noteq> []" "list_all isDigit ds" using assms(1) by (simp_all add: digits_def)
  have es: "takeWhile isDigit (es @ q) \<noteq> []"
    using assms(3) by (simp add: digits_def takeWhile_digits_prefix)
  show ?thesis
    using ds es assms(2) takeWhile_digits_append [OF ds(2) nd, of "es @ q"]
    by (simp add: matchCodeAt_def Let_def isCodeLetter_def)
qed

lemma matchCode_complete:
  assumes "digits ds" and "isCodeLetter c" and "digits es"
  shows "matchCode (p @ ds @ c # es @ q) \<noteq> None"
proof (induction p)
  case Nil
  have ne: "ds @ c # es @ q \<noteq> []" by simp
  then obtain a r where ar: "ds @ c # es @ q = a # r" by (cases "ds @ c # es @ q") auto
  have "matchCodeAt (a # r) \<noteq> None"
    using matchCodeAt_complete [OF assms, of q] ar by simp
  then have "matchCode (a # r) \<noteq> None" by (auto split: option.splits)
  then show ?case using ar by simp
next
  case (Cons a p)
  then show ?case by (auto split: option.splits)
qed

lemma matchCodeAt_sound:
  assumes "matchCodeAt s = Some (ds, es)"
  shows "\<exists>c q. s = ds @ c # es @ q \<and> digits ds \<and> isCodeLetter c \<and> digits es"
proof -
  from assms obtain c r where
    ds: "ds = takeWhile isDigit s" "ds \<noteq> []" and
    dr: "dropWhile isDigit s = c # r" and
    c: "isCodeLetter c" and
    es: "es = takeWhile isDigit r" "es \<noteq> []"
    by (auto simp: matchCodeAt_def Let_def isCodeLetter_def split: list.splits if_splits)
  have s: "s = ds @ c # r" using ds(1) dr takeWhile_dropWhile_id [of isDigit s] by simp
  have r: "r = es @ dropWhile isDigit r" using es(1) by simp
  have dds: "digits ds" using ds by (auto simp: digits_def list_all_iff dest: set_takeWhileD)
  have des: "digits es" using es by (auto simp: digits_def list_all_iff dest: set_takeWhileD)
  from s r have "s = ds @ c # es @ dropWhile isDigit r" by simp
  with dds des c show ?thesis by blast
qed

lemma matchCode_sound:
  "matchCode s = Some (ds, es) \<Longrightarrow>
     \<exists>p c q. s = p @ ds @ c # es @ q \<and> digits ds \<and> isCodeLetter c \<and> digits es"
proof (induction s)
  case Nil
  then show ?case by simp
next
  case (Cons a s)
  show ?case
  proof (cases "matchCodeAt (a # s)")
    case None
    with Cons.prems have "matchCode s = Some (ds, es)" by simp
    from Cons.IH [OF this] obtain p c q where
      "s = p @ ds @ c # es @ q" "digits ds" "isCodeLetter c" "digits es" by blast
    then have "a # s = (a # p) @ ds @ c # es @ q \<and> digits ds \<and> isCodeLetter c \<and> digits es"
      by simp
    then show ?thesis by blast
  next
    case (Some m)
    with Cons.prems have "matchCodeAt (a # s) = Some (ds, es)" by simp
    from matchCodeAt_sound [OF this] obtain c q where
      "a # s = [] @ ds @ c # es @ q" "digits ds" "isCodeLetter c" "digits es" by auto
    then show ?thesis by blast
  qed
qed

lemma matchCode_iff_hasCode: "(matchCode s \<noteq> None) = hasCode s"
proof
  assume "matchCode s \<noteq> None"
  then obtain ds es where "matchCode s = Some (ds, es)" by auto
  from matchCode_sound [OF this] show "hasCode s" unfolding hasCode_def by blast
next
  assume "hasCode s"
  then show "matchCode s \<noteq> None" unfolding hasCode_def using matchCode_complete by blast
qed

lemma hasSlugPattern_hasCode: "hasSlugPattern s \<Longrightarrow> hasCode s"
proof -
  assume "hasSlugPattern s"
  then obtain t ds c es q where
    "s = (t @ [CHR ''-'']) @ ds @ c # es @ q" "digits ds" "isCodeLetter c" "digits es"
    unfolding hasSlugPattern_def by auto
  then show "hasCode s" unfolding hasCode_def by blast
qed

lemma matchCodeAt_maximal:
  assumes "matchCodeAt s = Some (ds, es)"
  shows "\<exists>c q. s = ds @ c # es @ q \<and> digits ds \<and> isCodeLetter c \<and> digits es
           \<and> (case q of [] \<Rightarrow> True | d # q' \<Rightarrow> \<not> isDigit d)"
proof -
  from assms obtain c r where
    ds: "ds = takeWhile isDigit s" "ds \<noteq> []" and
    dr: "dropWhile isDigit s = c # r" and
    c: "isCodeLetter c" and
    es: "es = takeWhile isDigit r" "es \<noteq> []"
    by (auto simp: matchCodeAt_def Let_def isCodeLetter_def split: list.splits if_splits)
  have s: "s = ds @ c # r" using ds(1) dr takeWhile_dropWhile_id [of isDigit s] by simp
  have r: "r = es @ dropWhile isDigit r" using es(1) by simp
  have dds: "digits ds" using ds by (auto simp: digits_def list_all_iff dest: set_takeWhileD)
  have des: "digits es" using es by (auto simp: digits_def list_all_iff dest: set_takeWhileD)
  have q: "case dropWhile isDigit r of [] \<Rightarrow> True | d # q' \<Rightarrow> \<not> isDigit d"
  proof (cases "dropWhile isDigit r")
    case Nil
    show ?thesis unfolding Nil by simp
  next
    case (Cons d q')
    from hd_dropWhile [of isDigit r] have "\<not> isDigit d" unfolding Cons by simp
    then show ?thesis unfolding Cons by simp
  qed
  from s r have "s = ds @ c # es @ dropWhile isDigit r" by simp
  with dds des c q show ?thesis by blast
qed

lemma matchCodeAt_exact:
  assumes "digits ds" and "isCodeLetter c" and "digits es"
    and "case q of [] \<Rightarrow> True | d # q' \<Rightarrow> \<not> isDigit d"
  shows "matchCodeAt (ds @ c # es @ q) = Some (ds, es)"
proof -
  have nd: "\<not> isDigit c" using assms(2) by (rule isDigit_not_letter)
  have ds: "ds \<noteq> []" "list_all isDigit ds" using assms(1) by (simp_all add: digits_def)
  have es: "es \<noteq> []" "list_all isDigit es" using assms(3) by (simp_all add: digits_def)
  have t: "takeWhile isDigit (es @ q) = es"
  proof (cases q)
    case Nil
    then show ?thesis using es(2) by (simp add: list_all_iff)
  next
    case (Cons d q')
    then show ?thesis using assms(4) takeWhile_digits_append(1) [OF es(2), of d q'] by simp
  qed
  show ?thesis
    using ds es t assms(2) takeWhile_digits_append [OF ds(2) nd, of "es @ q"]
    by (simp add: matchCodeAt_def Let_def isCodeLetter_def)
qed

lemma codeStartsAt_iff: "codeStartsAt s m = (matchCodeAt (drop m s) \<noteq> None)"
proof
  assume "codeStartsAt s m"
  then show "matchCodeAt (drop m s) \<noteq> None"
    unfolding codeStartsAt_def using matchCodeAt_complete by metis
next
  assume "matchCodeAt (drop m s) \<noteq> None"
  then obtain ds es where "matchCodeAt (drop m s) = Some (ds, es)" by auto
  from matchCodeAt_sound [OF this] show "codeStartsAt s m" unfolding codeStartsAt_def by blast
qed

lemma matchCode_skip:
  "\<forall>m < n. matchCodeAt (drop m s) = None \<Longrightarrow> matchCode s = matchCode (drop n s)"
proof (induction n arbitrary: s)
  case 0
  then show ?case by simp
next
  case (Suc n)
  show ?case
  proof (cases s)
    case Nil
    then show ?thesis by simp
  next
    case (Cons a t)
    have "matchCodeAt (drop 0 s) = None" using Suc.prems by blast
    then have h: "matchCode s = matchCode t" using Cons by simp
    have "\<forall>m < n. matchCodeAt (drop m t) = None"
    proof (intro allI impI)
      fix m assume "m < n"
      then have "matchCodeAt (drop (Suc m) s) = None" using Suc.prems by simp
      then show "matchCodeAt (drop m t) = None" using Cons by simp
    qed
    from Suc.IH [OF this] h Cons show ?thesis by simp
  qed
qed

lemma matchCode_head: "matchCodeAt t = Some r \<Longrightarrow> matchCode t = Some r"
  by (cases t) (simp_all add: matchCodeAt_def)

lemma matchCode_position:
  "matchCode s = Some r \<Longrightarrow>
     \<exists>n \<le> length s. matchCodeAt (drop n s) = Some r \<and> (\<forall>m < n. matchCodeAt (drop m s) = None)"
proof (induction s)
  case Nil
  then show ?case by simp
next
  case (Cons a s)
  show ?case
  proof (cases "matchCodeAt (a # s)")
    case (Some m)
    with Cons.prems have "matchCodeAt (drop 0 (a # s)) = Some r" by simp
    then show ?thesis by blast
  next
    case None
    with Cons.prems have "matchCode s = Some r" by simp
    from Cons.IH [OF this] obtain n where
      n: "n \<le> length s" "matchCodeAt (drop n s) = Some r" "\<forall>m < n. matchCodeAt (drop m s) = None"
      by blast
    have "\<forall>m < Suc n. matchCodeAt (drop m (a # s)) = None"
    proof (intro allI impI)
      fix m assume m: "m < Suc n"
      show "matchCodeAt (drop m (a # s)) = None"
      proof (cases m)
        case 0
        then show ?thesis using None by simp
      next
        case (Suc k)
        then show ?thesis using m n(3) by simp
      qed
    qed
    moreover have "Suc n \<le> length (a # s)" and "matchCodeAt (drop (Suc n) (a # s)) = Some r"
      using n by simp_all
    ultimately show ?thesis by blast
  qed
qed

lemma matchCode_occurrence:
  assumes "matchedOccurrence s p ds c es q"
  shows "matchCode s = Some (ds, es)"
proof -
  have s: "s = p @ ds @ c # es @ q" and d: "digits ds" "isCodeLetter c" "digits es"
    and q: "case q of [] \<Rightarrow> True | d # q' \<Rightarrow> \<not> isDigit d"
    and l: "\<forall>m < length p. \<not> codeStartsAt s m"
    using assms unfolding matchedOccurrence_def by blast+
  have "\<forall>m < length p. matchCodeAt (drop m s) = None"
    using l unfolding codeStartsAt_iff by blast
  then have "matchCode s = matchCode (drop (length p) s)" by (rule matchCode_skip)
  also have "drop (length p) s = ds @ c # es @ q" using s by simp
  also have "matchCode (ds @ c # es @ q) = Some (ds, es)"
    using matchCodeAt_exact [OF d q] by (rule matchCode_head)
  finally show ?thesis .
qed

lemma occurrence_of_match:
  assumes "matchCode s = Some (ds, es)"
  shows "\<exists>p c q. matchedOccurrence s p ds c es q"
proof -
  from matchCode_position [OF assms] obtain n where
    n: "n \<le> length s" "matchCodeAt (drop n s) = Some (ds, es)"
       "\<forall>m < n. matchCodeAt (drop m s) = None"
    by blast
  from matchCodeAt_maximal [OF n(2)] obtain c q where
    cq: "drop n s = ds @ c # es @ q" "digits ds" "isCodeLetter c" "digits es"
        "case q of [] \<Rightarrow> True | d # q' \<Rightarrow> \<not> isDigit d"
    by blast
  have "s = take n s @ ds @ c # es @ q" using cq(1) append_take_drop_id [of n s] by simp
  moreover have "\<forall>m < length (take n s). \<not> codeStartsAt s m"
    using n(1, 3) unfolding codeStartsAt_iff by simp
  ultimately have "matchedOccurrence s (take n s) ds c es q"
    using cq unfolding matchedOccurrence_def by blast
  then show ?thesis by blast
qed

lemma toNumber_exact: "n < 2 ^ 53 \<Longrightarrow> toNumber n = Finite n"
  by (simp add: toNumber_def)

lemma toNumber_tie: "toNumber 9007199254740993 = Finite 9007199254740992"
proof -
  have "shiftCount 9007199254740993 = Suc (shiftCount 4503599627370496)"
    by (subst shiftCount.simps) simp
  also have "shiftCount 4503599627370496 = 0"
    by (subst shiftCount.simps) simp
  finally have e: "shiftCount 9007199254740993 = 1" by simp
  show ?thesis by (simp add: toNumber_def e Let_def)
qed

lemma parseEpisodeCode_naruto:
  "parseEpisodeCode ''naruto-2x5'' = Some \<lparr>season = Finite 2, episode = Finite 5\<rparr>"
  by (simp add: parseEpisodeCode_def matchCodeAt_def Let_def isDigit_def parseInt10_def
      decimalValue_def digitVal_def toNumber_def)

lemma parseEpisodeCode_no_code: "parseEpisodeCode ''naruto'' = None"
  by (simp add: parseEpisodeCode_def matchCodeAt_def Let_def isDigit_def)

lemma parseEpisodeCode_rounds:
  "parseEpisodeCode ''naruto-1x9007199254740993'' =
     Some \<lparr>season = Finite 1, episode = Finite 9007199254740992\<rparr>"
proof -
  have v: "decimalValue ''9007199254740993'' = 9007199254740993" "decimalValue ''1'' = 1"
    by (simp_all add: decimalValue_def digitVal_def)
  have m: "matchCode ''naruto-1x9007199254740993'' = Some (''1'', ''9007199254740993'')"
    by (simp add: matchCodeAt_def Let_def isDigit_def)
  show ?thesis
    unfolding parseEpisodeCode_def m
    by (simp add: parseInt10_def v toNumber_tie toNumber_exact)
qed

text \<open>
  C5 (as the code has it). \<open>parseEpisodeCode\<close> returns a pair exactly when the input
  contains, anywhere, one or more digits, the letter x in either case, and one or more
  digits. The pair is read off the leftmost such occurrence, its second run of digits
  taken as far as it goes: season and episode are the Number values of the two runs,
  that is, their decimal values rounded to the nearest double, exact below \<open>2^53\<close>. No
  hyphen and no text before it are needed; every input with the slug pattern yields a
  pair; \<open>naruto-2x5\<close> gives season 2 and episode 5, \<open>naruto\<close> gives nothing, and
  \<open>naruto-1x9007199254740993\<close> gives episode 9007199254740992.
\<close>

theorem parseEpisodeCode_iff_code:
  "(parseEpisodeCode s \<noteq> None) = hasCode s
   \<and> (\<forall>p ds c es q. matchedOccurrence s p ds c es q \<longrightarrow>
         parseEpisodeCode s = Some \<lparr>season = parseInt10 ds, episode = parseInt10 es\<rparr>)
   \<and> (\<forall>cd. parseEpisodeCode s = Some cd \<longrightarrow> (\<exists>p ds c es q. matchedOccurrence s p ds c es q))
   \<and> (\<forall>ds. decimalValue ds < 2 ^ 53 \<longrightarrow> parseInt10 ds = Finite (decimalValue ds))
   \<and> (hasSlugPattern s \<longrightarrow> parseEpisodeCode s \<noteq> None)
   \<and> parseEpisodeCode ''naruto-2x5'' = Some \<lparr>season = Finite 2, episode = Finite 5\<rparr>
   \<and> parseEpisodeCode ''naruto'' = None
   \<and> parseEpisodeCode ''naruto-1x9007199254740993'' =
       Some \<lparr>season = Finite 1, episode = Finite 9007199254740992\<rparr>"
proof -
  have a: "(parseEpisodeCode s \<noteq> None) = (matchCode s \<noteq> None)"
    by (auto simp: parseEpisodeCode_def split: option.splits)
  have b: "(parseEpisodeCode s \<noteq> None) = hasCode s"
    using a matchCode_iff_hasCode by simp
  have c: "hasSlugPattern s \<longrightarrow> parseEpisodeCode s \<noteq> None"
    using b hasSlugPattern_hasCode by blast
  have d: "\<forall>p ds c es q. matchedOccurrence s p ds c es q \<longrightarrow>
         parseEpisodeCode s = Some \<lparr>season = parseInt10 ds, episode = parseInt10 es\<rparr>"
  proof (intro allI impI)
    fix p ds c es q assume "matchedOccurrence s p ds c es q"
    then have "matchCode s = Some (ds, es)" by (rule matchCode_occurrence)
    then show "parseEpisodeCode s = Some \<lparr>season = parseInt10 ds, episode = parseInt10 es\<rparr>"
      by (simp add: parseEpisodeCode_def)
  qed
  have e: "\<forall>cd. parseEpisodeCode s = Some cd \<longrightarrow> (\<exists>p ds c es q. matchedOccurrence s p ds c es q)"
  proof (intro allI impI)
    fix cd assume "parseEpisodeCode s = Some cd"
    then obtain ds es where "matchCode s = Some (ds, es)"
      by (auto simp: parseEpisodeCode_def split: option.splits)
    from occurrence_of_match [OF this] show "\<exists>p ds c es q. matchedOccurrence s p ds c es q"
      by blast
  qed
  have f: "\<forall>ds. decimalValue ds < 2 ^ 53 \<longrightarrow> parseInt10 ds = Finite (decimalValue ds)"
    by (simp add: parseInt10_def toNumber_exact)
  show ?thesis
    using b d e f c parseEpisodeCode_naruto parseEpisodeCode_no_code parseEpisodeCode_rounds
    by (intro conjI)
qed

theorem parseEpisodeCode_iff_code_witness:
  "hasSlugPattern ''naruto-2x5'' \<and> hasCode ''naruto-2x5''
   \<and> matchedOccurrence ''naruto-2x5'' ''naruto-'' ''2'' (CHR ''x'') ''5'' []
   \<and> decimalValue ''2'' < 2 ^ 53 \<and> parseInt10 ''2'' = Finite 2 \<and> parseInt10 ''5'' = Finite 5
   \<and> parseEpisodeCode ''naruto-2x5'' = Some \<lparr>season = Finite 2, episode = Finite 5\<rparr>
   \<and> (\<exists>p ds c es q. matchedOccurrence ''naruto-2x5'' p ds c es q)"
proof -
  note t = parseEpisodeCode_iff_code [of "''naruto-2x5''"]
  have "''naruto-2x5'' = ''naruto'' @ CHR ''-'' # ''2'' @ CHR ''x'' # ''5'' @ []" by simp
  then have h: "hasSlugPattern ''naruto-2x5''"
    unfolding hasSlugPattern_def digits_def isCodeLetter_def isDigit_def
    by (intro exI [of _ "''naruto''"] exI [of _ "''2''"] exI [of _ "CHR ''x''"]
        exI [of _ "''5''"] exI [of _ "[]"]) simp
  have l: "\<forall>m < length ''naruto-''. \<not> codeStartsAt ''naruto-2x5'' m"
    unfolding codeStartsAt_iff
    by (simp add: All_less_Suc matchCodeAt_def Let_def isDigit_def)
  have o: "matchedOccurrence ''naruto-2x5'' ''naruto-'' ''2'' (CHR ''x'') ''5'' []"
    unfolding matchedOccurrence_def using l
    by (simp add: digits_def isCodeLetter_def isDigit_def)
  have v: "decimalValue ''2'' = 2" "decimalValue ''5'' = 5"
    by (simp_all add: decimalValue_def digitVal_def)
  have s2: "decimalValue ''2'' < 2 ^ 53" and s5: "decimalValue ''5'' < 2 ^ 53"
    by (simp_all add: v)
  have n2: "parseInt10 ''2'' = Finite (decimalValue ''2'')"
    using t s2 by blast
  have n5: "parseInt10 ''5'' = Finite (decimalValue ''5'')"
    using t s5 by blast
  have r: "parseEpisodeCode ''naruto-2x5'' =
             Some \<lparr>season = parseInt10 ''2'', episode = parseInt10 ''5''\<rparr>"
    using t o by blast
  have c: "hasCode ''naruto-2x5''" using t h by blast
  have e: "\<exists>p ds c es q. matchedOccurrence ''naruto-2x5'' p ds c es q"
    using t r by blast
  show ?thesis using h c o s2 n2 n5 r e by (simp add: v)
qed

text \<open>
  C5 (as stated) fails twice: \<open>2x5\<close> has no hyphen at all and still yields a pair, and
  \<open>naruto-0x0\<close> yields season 0 and episode 0, which are not positive.
\<close>

theorem parseEpisodeCode_counterexample:
  "parseEpisodeCode ''2x5'' = Some \<lparr>season = Finite 2, episode = Finite 5\<rparr>
   \<and> CHR ''-'' \<notin> set ''2x5''
   \<and> parseEpisodeCode ''naruto-0x0'' = Some \<lparr>season = Finite 0, episode = Finite 0\<rparr>"
  by (simp add: parseEpisodeCode_def matchCodeAt_def Let_def isDigit_def parseInt10_def
      decimalValue_def digitVal_def toNumber_def)

section \<open>Properties of the fetch layer\<close>


lemma failedAttempts_0: "failedAttempts url 0 = []"
  by (simp add: failedAttempts_def)

lemma failedAttempts_Suc:
  "failedAttempts url (Suc n) = failedAttempts url n @ [Request url, Delay (500 * Suc n)]"
  by (simp add: failedAttempts_def)

lemma axiosGet_refused:
  assumes "\<not> accepted (attemptOutcome E url tr k)"
  shows "axiosGet E (tr @ Fetch url # failedAttempts url (k - 1)) url requestConfig =
           Inl (JsError (failureMessage E (attemptOutcome E url tr k)))"
  using assms
  by (auto simp: axiosGet_def attemptOutcome_def accepted_def failureMessage_def requestConfig_def
      split: httpResult.splits)

lemma axiosGet_accepted:
  assumes "attemptOutcome E url tr k = Response status body" and "200 \<le> status" and "status < 400"
  shows "axiosGet E (tr @ Fetch url # failedAttempts url (k - 1)) url requestConfig = Inr body"
  using assms by (simp add: axiosGet_def attemptOutcome_def requestConfig_def)

lemma fetchLoop_exhausted:
  assumes "\<forall>k. a \<le> k \<and> k \<le> retries \<longrightarrow> \<not> accepted (attemptOutcome E url tr k)"
    and "1 \<le> a" and "a \<le> retries + 1"
  shows "fetchLoop E url retries a le (tr @ Fetch url # failedAttempts url (a - 1)) =
           (Inl (JsError (''Failed to fetch '' @ url @ '': '' @
              lastMessage (if a \<le> retries
                 then Some (JsError (failureMessage E (attemptOutcome E url tr retries)))
                 else le))),
            tr @ Fetch url # failedAttempts url retries)"
  using assms
proof (induction "retries + 1 - a" arbitrary: a le)
  case 0
  then have a: "a = retries + 1" by simp
  show ?case unfolding a by (subst fetchLoop.simps) simp
next
  case (Suc d)
  then have le: "a \<le> retries" by simp
  obtain b where b: "a = Suc b" using Suc.prems(2) by (cases a) auto
  have ref: "\<not> accepted (attemptOutcome E url tr a)" using Suc.prems(1) le by simp
  have step: "fetchLoop E url retries a le (tr @ Fetch url # failedAttempts url (a - 1)) =
     fetchLoop E url retries (a + 1) (Some (JsError (failureMessage E (attemptOutcome E url tr a))))
       (tr @ Fetch url # failedAttempts url ((a + 1) - 1))"
    using le axiosGet_refused [OF ref]
    by (subst fetchLoop.simps) (simp add: b failedAttempts_Suc)
  have ih: "fetchLoop E url retries (a + 1) le' (tr @ Fetch url # failedAttempts url ((a + 1) - 1)) =
           (Inl (JsError (''Failed to fetch '' @ url @ '': '' @
              lastMessage (if a + 1 \<le> retries
                 then Some (JsError (failureMessage E (attemptOutcome E url tr retries)))
                 else le'))),
            tr @ Fetch url # failedAttempts url retries)" for le'
    using Suc.hyps(1) [of "a + 1" le'] Suc.hyps(2) Suc.prems le by auto
  show ?case
  proof (cases "a + 1 \<le> retries")
    case True
    then show ?thesis using step ih le by simp
  next
    case False
    then have "a = retries" using le by simp
    then show ?thesis using step ih False by simp
  qed
qed

lemma fetchLoop_success:
  assumes "\<forall>j. a \<le> j \<and> j < k \<longrightarrow> \<not> accepted (attemptOutcome E url tr j)"
    and "attemptOutcome E url tr k = Response status body" and "200 \<le> status" and "status < 400"
    and "1 \<le> a" and "a \<le> k" and "k \<le> retries"
  shows "fetchLoop E url retries a le (tr @ Fetch url # failedAttempts url (a - 1)) =
           (Inr body, tr @ Fetch url # failedAttempts url (k - 1) @ [Request url])"
  using assms
proof (induction "k - a" arbitrary: a le)
  case 0
  then have a: "a = k" by simp
  show ?case
    using 0 axiosGet_accepted [OF 0(3) 0(4) 0(5)]
    unfolding a by (subst fetchLoop.simps) simp
next
  case (Suc d)
  then have lt: "a < k" by simp
  obtain b where b: "a = Suc b" using Suc.prems(5) by (cases a) auto
  have ref: "\<not> accepted (attemptOutcome E url tr a)" using Suc.prems(1) lt by simp
  have step: "fetchLoop E url retries a le (tr @ Fetch url # failedAttempts url (a - 1)) =
     fetchLoop E url retries (a + 1) (Some (JsError (failureMessage E (attemptOutcome E url tr a))))
       (tr @ Fetch url # failedAttempts url ((a + 1) - 1))"
    using lt Suc.prems(7) axiosGet_refused [OF ref]
    by (subst fetchLoop.simps) (simp add: b failedAttempts_Suc)
  show ?case
    using step Suc.hyps(1) [of "a + 1"] Suc.hyps(2) Suc.prems lt by auto
qed


lemma requests_failedAttempts: "length (filter isRequest (failedAttempts url n)) = n"
  by (induction n) (simp_all add: failedAttempts_0 failedAttempts_Suc isRequest_def)

lemma fetchHtmlWithRetry_exhausted:
  assumes "\<forall>k. 1 \<le> k \<and> k \<le> retries \<longrightarrow> \<not> accepted (attemptOutcome E url tr k)"
  shows "fetchHtmlWithRetry E url retries tr =
           (Inl (JsError (''Failed to fetch '' @ url @ '': '' @
              lastMessage (if 1 \<le> retries
                 then Some (JsError (failureMessage E (attemptOutcome E url tr retries)))
                 else None))),
            tr @ Fetch url # failedAttempts url retries)"
  using fetchLoop_exhausted [of 1 retries E url tr None] assms
  by (simp add: fetchHtmlWithRetry_def failedAttempts_0)

lemma fetchHtmlWithRetry_success:
  assumes "1 \<le> k" and "k \<le> retries"
    and "\<forall>j. 1 \<le> j \<and> j < k \<longrightarrow> \<not> accepted (attemptOutcome E url tr j)"
    and "attemptOutcome E url tr k = Response status body" and "200 \<le> status" and "status < 400"
  shows "fetchHtmlWithRetry E url retries tr =
           (Inr body, tr @ Fetch url # failedAttempts url (k - 1) @ [Request url])"
  using fetchLoop_success [of 1 k E url tr status body retries None] assms
  by (simp add: fetchHtmlWithRetry_def failedAttempts_0)

lemma fetchHtmlWithRetry_cases:
  "(\<exists>e. fetchHtmlWithRetry E url retries tr = (Inl e, tr @ Fetch url # failedAttempts url retries))
   \<or> (\<exists>k body. 1 \<le> k \<and> k \<le> retries \<and> fetchHtmlWithRetry E url retries tr =
         (Inr body, tr @ Fetch url # failedAttempts url (k - 1) @ [Request url]))"
proof (cases "\<exists>k. 1 \<le> k \<and> k \<le> retries \<and> accepted (attemptOutcome E url tr k)")
  case False
  then have "\<forall>k. 1 \<le> k \<and> k \<le> retries \<longrightarrow> \<not> accepted (attemptOutcome E url tr k)" by blast
  from fetchHtmlWithRetry_exhausted [OF this] show ?thesis by blast
next
  case True
  define k where "k = (LEAST k. 1 \<le> k \<and> k \<le> retries \<and> accepted (attemptOutcome E url tr k))"
  have k: "1 \<le> k \<and> k \<le> retries \<and> accepted (attemptOutcome E url tr k)"
    unfolding k_def using True by (rule LeastI_ex)
  have least: "\<forall>j. 1 \<le> j \<and> j < k \<longrightarrow> \<not> accepted (attemptOutcome E url tr j)"
  proof (intro allI impI)
    fix j assume j: "1 \<le> j \<and> j < k"
    show "\<not> accepted (attemptOutcome E url tr j)"
    proof
      assume "accepted (attemptOutcome E url tr j)"
      then have "1 \<le> j \<and> j \<le> retries \<and> accepted (attemptOutcome E url tr j)" using j k by simp
      then have "k \<le> j" unfolding k_def by (rule Least_le)
      then show False using j by simp
    qed
  qed
  from k obtain status body where
    r: "attemptOutcome E url tr k = Response status body" "200 \<le> status" "status < 400"
    by (auto simp: accepted_def split: httpResult.splits)
  from fetchHtmlWithRetry_success [OF _ _ least r] k show ?thesis by blast
qed

lemma fetchHtmlWithRetry_shape:
  "\<exists>evs. snd (fetchHtmlWithRetry E url retries tr) = tr @ Fetch url # evs
     \<and> length (filter isRequest evs) \<le> retries"
proof -
  have "length (filter isRequest (failedAttempts url (k - 1) @ [Request url])) \<le> retries"
    if "1 \<le> k" and "k \<le> retries" for k
    using that requests_failedAttempts [of url "k - 1"] by (simp add: isRequest_def)
  then show ?thesis
    using fetchHtmlWithRetry_cases [of E url retries tr] requests_failedAttempts [of url retries]
    by force
qed

text \<open>
  C6. \<open>fetchHtmlWithRetry\<close> sends at most \<open>retries\<close> requests (3 by default), each
  failed attempt \<open>k\<close> being followed by a delay of \<open>500 * k\<close> milliseconds. When every
  attempt fails, it throws an error whose message is \<open>Failed to fetch <url>: \<close> followed by
  the message of the last attempt's error. When an attempt is answered with a status from
  200 up to but excluding 400, the redirects (at most 5) having been followed, and the attempts
  before it have failed, it returns the body of that response.
\<close>

theorem fetchHtmlWithRetry_attempts:
  "maxRetries = 3
   \<and> (\<exists>evs. snd (fetchHtmlWithRetry E url retries tr) = tr @ Fetch url # evs
         \<and> length (filter isRequest evs) \<le> retries)
   \<and> ((\<forall>k. 1 \<le> k \<and> k \<le> retries \<longrightarrow> \<not> accepted (attemptOutcome E url tr k)) \<longrightarrow>
        fetchHtmlWithRetry E url retries tr =
          (Inl (JsError (''Failed to fetch '' @ url @ '': '' @
             lastMessage (if 1 \<le> retries
                then Some (JsError (failureMessage E (attemptOutcome E url tr retries)))
                else None))),
           tr @ Fetch url # failedAttempts url retries))
   \<and> (\<forall>k status body.
        1 \<le> k \<and> k \<le> retries
        \<and> (\<forall>j. 1 \<le> j \<and> j < k \<longrightarrow> \<not> accepted (attemptOutcome E url tr j))
        \<and> attemptOutcome E url tr k = Response status body \<and> 200 \<le> status \<and> status < 400 \<longrightarrow>
        fetchHtmlWithRetry E url retries tr =
          (Inr body, tr @ Fetch url # failedAttempts url (k - 1) @ [Request url]))"
proof (intro conjI allI impI)
  show "maxRetries = 3" by (simp add: maxRetries_def)
next
  show "\<exists>evs. snd (fetchHtmlWithRetry E url retries tr) = tr @ Fetch url # evs
         \<and> length (filter isRequest evs) \<le> retries"
    using fetchHtmlWithRetry_shape [of E url retries tr] by blast
next
  assume "\<forall>k. 1 \<le> k \<and> k \<le> retries \<longrightarrow> \<not> accepted (attemptOutcome E url tr k)"
  then show "fetchHtmlWithRetry E url retries tr =
          (Inl (JsError (''Failed to fetch '' @ url @ '': '' @
             lastMessage (if 1 \<le> retries
                then Some (JsError (failureMessage E (attemptOutcome E url tr retries)))
                else None))),
           tr @ Fetch url # failedAttempts url retries)"
    by (rule fetchHtmlWithRetry_exhausted)
next
  fix k status body
  assume "1 \<le> k \<and> k \<le> retries
        \<and> (\<forall>j. 1 \<le> j \<and> j < k \<longrightarrow> \<not> accepted (attemptOutcome E url tr j))
        \<and> attemptOutcome E url tr k = Response status body \<and> 200 \<le> status \<and> status < 400"
  then show "fetchHtmlWithRetry E url retries tr =
          (Inr body, tr @ Fetch url # failedAttempts url (k - 1) @ [Request url])"
    using fetchHtmlWithRetry_success [of k retries E url tr status body] by blast
qed

lemma failedAttempts_1: "failedAttempts url (Suc 0) = [Request url, Delay 500]"
  by (simp add: failedAttempts_def)

lemma failedAttempts_3:
  "failedAttempts url 3 = [Request url, Delay 500, Request url, Delay 1000, Request url, Delay 1500]"
  by (simp add: failedAttempts_def upt_rec)

theorem fetchHtmlWithRetry_attempts_witness:
  "fetchHtmlWithRetry flakyEnv ''https://toonstream.one/'' 3 [] =
     (Inr ''<html>'',
      [Fetch ''https://toonstream.one/'', Request ''https://toonstream.one/'', Delay 500,
       Request ''https://toonstream.one/''])
   \<and> fetchHtmlWithRetry downEnv ''https://toonstream.one/'' 3 [] =
     (Inl (JsError ''Failed to fetch https://toonstream.one/: ECONNREFUSED''),
      [Fetch ''https://toonstream.one/'',
       Request ''https://toonstream.one/'', Delay 500,
       Request ''https://toonstream.one/'', Delay 1000,
       Request ''https://toonstream.one/'', Delay 1500])"
proof -
  let ?u = "''https://toonstream.one/''"
  have f1: "attemptOutcome flakyEnv ?u [] 1 = Response 503 ''busy''"
    by (simp add: attemptOutcome_def flakyEnv_def mkEnv_def failedAttempts_0)
  have f2: "attemptOutcome flakyEnv ?u [] 2 = Response 200 ''<html>''"
    by (simp add: attemptOutcome_def flakyEnv_def mkEnv_def failedAttempts_1)
  have h1: "\<forall>j. 1 \<le> j \<and> j < (2::nat) \<longrightarrow> \<not> accepted (attemptOutcome flakyEnv ?u [] j)"
  proof (intro allI impI)
    fix j :: nat assume "1 \<le> j \<and> j < 2"
    then have "j = 1" by simp
    then show "\<not> accepted (attemptOutcome flakyEnv ?u [] j)" using f1 by (simp add: accepted_def)
  qed
  note t = fetchHtmlWithRetry_attempts [of flakyEnv ?u 3 "[]"]
  note t3 = t [THEN conjunct2, THEN conjunct2, THEN conjunct2, rule_format]
  have a: "fetchHtmlWithRetry flakyEnv ?u 3 [] =
     (Inr ''<html>'', [] @ Fetch ?u # failedAttempts ?u (2 - 1) @ [Request ?u])"
    by (rule t3 [of 2 200]) (simp add: f2 h1)
  have d: "\<forall>k. 1 \<le> k \<and> k \<le> (3::nat) \<longrightarrow> \<not> accepted (attemptOutcome downEnv ?u [] k)"
    by (simp add: attemptOutcome_def downEnv_def mkEnv_def accepted_def)
  note s = fetchHtmlWithRetry_attempts [of downEnv ?u 3 "[]"]
  note s2 = s [THEN conjunct2, THEN conjunct2, THEN conjunct1, THEN mp]
  have b: "fetchHtmlWithRetry downEnv ?u 3 [] =
          (Inl (JsError (''Failed to fetch '' @ ?u @ '': '' @
             lastMessage (if 1 \<le> (3::nat)
                then Some (JsError (failureMessage downEnv (attemptOutcome downEnv ?u [] 3)))
                else None))),
           [] @ Fetch ?u # failedAttempts ?u 3)"
    by (rule s2) (rule d)
  have m: "failureMessage downEnv (attemptOutcome downEnv ?u [] 3) = ''ECONNREFUSED''"
    by (simp add: attemptOutcome_def downEnv_def mkEnv_def failureMessage_def)
  show ?thesis using a b unfolding m by (simp add: failedAttempts_1 failedAttempts_3 lastMessage_def)
qed

section \<open>Properties of the embed resolver\<close>

lemma fetchesOf_append: "fetchesOf (a @ b) = fetchesOf a @ fetchesOf b"
  by (induction a rule: fetchesOf.induct) simp_all

lemma fetchesOf_failedAttempts: "fetchesOf (failedAttempts url n) = []"
  by (induction n) (simp_all add: failedAttempts_0 failedAttempts_Suc fetchesOf_append)

lemma fetch_events:
  "\<exists>evs. snd (fetchHtmlWithRetry E url retries tr) = tr @ Fetch url # evs \<and> fetchesOf evs = []"
  using fetchHtmlWithRetry_cases [of E url retries tr]
  by (auto simp: fetchesOf_failedAttempts fetchesOf_append)

lemma afterFetch_trace:
  "\<exists>evs. trace (afterFetch E u st) = trace st @ Visited u # Fetch u # evs \<and> fetchesOf evs = []"
  using fetch_events [of E u maxRetries "trace st @ [Visited u]"]
  by (auto simp: afterFetch_def)

lemma afterFetch_visited: "visited (afterFetch E u st) = insert u (visited st)"
  by (simp add: afterFetch_def)

lemma resolve_falsy: "url = None \<or> url = Some [] \<Longrightarrow> resolve E url depth st = (None, st)"
  by (subst resolve.simps) auto

lemma resolve_stop:
  "u \<noteq> [] \<Longrightarrow> u \<in> visited st \<or> int depth > MAX_DEPTH E \<Longrightarrow>
     resolve E (Some u) depth st = (Some u, st)"
  by (subst resolve.simps) auto

lemma resolve_fetch_failed:
  assumes "u \<noteq> []" and "u \<notin> visited st" and "int depth \<le> MAX_DEPTH E"
    and "fst (fetchHtmlWithRetry E u maxRetries (trace st @ [Visited u])) = Inl err"
  shows "resolve E (Some u) depth st = (None, afterFetch E u st)"
  using assms by (subst resolve.simps) (simp add: afterFetch_def Let_def)

lemma resolve_return:
  assumes "u \<noteq> []" and "u \<notin> visited st" and "int depth \<le> MAX_DEPTH E"
    and "fst (fetchHtmlWithRetry E u maxRetries (trace st @ [Visited u])) = Inr html"
    and "resolveStep E u depth (insert u (visited st)) (cheerioLoad E html) = Return r"
  shows "resolve E (Some u) depth st = (r, afterFetch E u st)"
  using assms by (subst resolve.simps) (simp add: afterFetch_def Let_def)

lemma resolve_recurse:
  assumes "u \<noteq> []" and "u \<notin> visited st" and "int depth \<le> MAX_DEPTH E"
    and "fst (fetchHtmlWithRetry E u maxRetries (trace st @ [Visited u])) = Inr html"
    and "resolveStep E u depth (insert u (visited st)) (cheerioLoad E html) = Recurse nxt"
  shows "resolve E (Some u) depth st = resolve E nxt (depth + 1) (afterFetch E u st)"
  using assms by (subst resolve.simps) (simp add: afterFetch_def Let_def)

lemma visitedBeforeFetch_Nil: "visitedBeforeFetch []"
  by (simp add: visitedBeforeFetch_def)

lemma visitedBeforeFetch_append:
  assumes "visitedBeforeFetch a" and "visitedBeforeFetch b"
  shows "visitedBeforeFetch (a @ b)"
  unfolding visitedBeforeFetch_def
proof (intro allI impI)
  fix i u assume i: "i < length (a @ b)" and f: "(a @ b) ! i = Fetch u"
  show "Visited u \<in> set (take i (a @ b))"
  proof (cases "i < length a")
    case True
    then have "a ! i = Fetch u" using f by (simp add: nth_append)
    then have "Visited u \<in> set (take i a)" using assms(1) True by (simp add: visitedBeforeFetch_def)
    then show ?thesis using True by simp
  next
    case False
    then have "b ! (i - length a) = Fetch u" and "i - length a < length b"
      using f i by (simp_all add: nth_append)
    then have "Visited u \<in> set (take (i - length a) b)"
      using assms(2) by (simp add: visitedBeforeFetch_def)
    then show ?thesis using False by simp
  qed
qed

lemma fetchesOf_nth: "i < length evs \<Longrightarrow> evs ! i = Fetch u \<Longrightarrow> u \<in> set (fetchesOf evs)"
proof (induction evs arbitrary: i)
  case Nil
  then show ?case by simp
next
  case (Cons e es)
  show ?case
  proof (cases i)
    case 0
    then show ?thesis using Cons.prems by simp
  next
    case (Suc j)
    then have "u \<in> set (fetchesOf es)" using Cons by simp
    then show ?thesis by (cases e) simp_all
  qed
qed

lemma visitedBeforeFetch_hop:
  assumes "fetchesOf evs = []"
  shows "visitedBeforeFetch (Visited u # Fetch u # evs)"
  unfolding visitedBeforeFetch_def
proof (intro allI impI)
  fix i v assume i: "i < length (Visited u # Fetch u # evs)" and f: "(Visited u # Fetch u # evs) ! i = Fetch v"
  show "Visited v \<in> set (take i (Visited u # Fetch u # evs))"
  proof (cases i)
    case 0
    then show ?thesis using f by simp
  next
    case (Suc j)
    show ?thesis
    proof (cases j)
      case 0
      then show ?thesis using f Suc by simp
    next
      case (Suc k)
      then have "evs ! k = Fetch v" and "k < length evs" using f i \<open>i = Suc j\<close> by simp_all
      then have "v \<in> set (fetchesOf evs)" using fetchesOf_nth by blast
      then show ?thesis using assms by simp
    qed
  qed
qed

lemma resolve_trace:
  "\<exists>evs. trace (snd (resolve E url depth st)) = trace st @ evs
     \<and> distinct (fetchesOf evs)
     \<and> set (fetchesOf evs) \<inter> visited st = {}
     \<and> visitedBeforeFetch evs
     \<and> int (length (fetchesOf evs)) \<le> max 0 (MAX_DEPTH E + 1 - int depth)"
proof (induction "nat (MAX_DEPTH E + 1 - int depth)" arbitrary: url depth st rule: less_induct)
  case less
  let ?P = "\<lambda>url depth st evs. trace (snd (resolve E url depth st)) = trace st @ evs
     \<and> distinct (fetchesOf evs)
     \<and> set (fetchesOf evs) \<inter> visited st = {}
     \<and> visitedBeforeFetch evs
     \<and> int (length (fetchesOf evs)) \<le> max 0 (MAX_DEPTH E + 1 - int depth)"
  have stop: "?P url depth st []" if "resolve E url depth st = (r, st)" for r
    using that by (simp add: visitedBeforeFetch_Nil)
  show ?case
  proof (cases "url = None \<or> url = Some []")
    case True
    from resolve_falsy [OF this] stop show ?thesis by blast
  next
    case False
    then obtain u where u: "url = Some u" "u \<noteq> []" by auto
    show ?thesis
    proof (cases "u \<in> visited st \<or> int depth > MAX_DEPTH E")
      case True
      from resolve_stop [OF u(2) this] stop u show ?thesis by blast
    next
      case False
      then have nv: "u \<notin> visited st" and d: "int depth \<le> MAX_DEPTH E" by auto
      obtain evs1 where evs1: "trace (afterFetch E u st) = trace st @ Visited u # Fetch u # evs1"
        "fetchesOf evs1 = []"
        using afterFetch_trace by blast
      have hop: "visitedBeforeFetch (Visited u # Fetch u # evs1)"
        using evs1(2) by (rule visitedBeforeFetch_hop)
      have one: "?P url depth st (Visited u # Fetch u # evs1)"
        if "resolve E url depth st = (r, afterFetch E u st)" for r
        using that evs1 hop nv d by simp
      show ?thesis
      proof (cases "fst (fetchHtmlWithRetry E u maxRetries (trace st @ [Visited u]))")
        case (Inl err)
        from resolve_fetch_failed [OF u(2) nv d Inl] one u show ?thesis by blast
      next
        case (Inr html)
        show ?thesis
        proof (cases "resolveStep E u depth (insert u (visited st)) (cheerioLoad E html)")
          case (Return r)
          from resolve_return [OF u(2) nv d Inr Return] one u show ?thesis by blast
        next
          case (Recurse nxt)
          have eq: "resolve E url depth st = resolve E nxt (depth + 1) (afterFetch E u st)"
            using resolve_recurse [OF u(2) nv d Inr Recurse] u by simp
          have "nat (MAX_DEPTH E + 1 - int (depth + 1)) < nat (MAX_DEPTH E + 1 - int depth)"
            using d by simp
          from less [OF this, of nxt "afterFetch E u st"]
          obtain evs2 where evs2:
            "trace (snd (resolve E nxt (depth + 1) (afterFetch E u st))) = trace (afterFetch E u st) @ evs2"
            "distinct (fetchesOf evs2)"
            "set (fetchesOf evs2) \<inter> visited (afterFetch E u st) = {}"
            "visitedBeforeFetch evs2"
            "int (length (fetchesOf evs2)) \<le> max 0 (MAX_DEPTH E + 1 - int (depth + 1))"
            by blast
          have "?P url depth st ((Visited u # Fetch u # evs1) @ evs2)"
            using eq evs1 evs2 nv d visitedBeforeFetch_append [OF hop evs2(4)]
            by (auto simp: fetchesOf_append afterFetch_visited)
          then show ?thesis by blast
        qed
      qed
    qed
  qed
qed

lemma siteEnv_fetch_ok:
  assumes "map_of pages u = Some d"
  shows "fetchHtmlWithRetry (siteEnv pages) u maxRetries tr = (Inr u, tr @ [Fetch u, Request u])"
proof -
  have o: "attemptOutcome (siteEnv pages) u tr 1 = Response 200 u"
    using assms by (simp add: attemptOutcome_def siteEnv_def mkEnv_def)
  have "fetchHtmlWithRetry (siteEnv pages) u maxRetries tr =
          (Inr u, tr @ Fetch u # failedAttempts u (1 - 1) @ [Request u])"
    by (rule fetchHtmlWithRetry_success [OF _ _ _ o]) (simp_all add: maxRetries_def)
  then show ?thesis by (simp add: failedAttempts_0)
qed

lemma siteEnv_fetch_failed:
  assumes "map_of pages u = None"
  shows "fetchHtmlWithRetry (siteEnv pages) u maxRetries tr =
           (Inl (JsError (''Failed to fetch '' @ u @ '': ENOTFOUND'')),
            tr @ Fetch u # failedAttempts u 3)"
proof -
  have o: "attemptOutcome (siteEnv pages) u tr k = ConnectionError ''ENOTFOUND''" for k
    using assms by (simp add: attemptOutcome_def siteEnv_def mkEnv_def)
  have "\<forall>k. 1 \<le> k \<and> k \<le> maxRetries \<longrightarrow> \<not> accepted (attemptOutcome (siteEnv pages) u tr k)"
    by (simp add: o accepted_def)
  from fetchHtmlWithRetry_exhausted [OF this] show ?thesis
    by (simp add: o maxRetries_def failureMessage_def lastMessage_def)
qed

lemma siteEnv_load: "map_of pages u = Some d \<Longrightarrow> cheerioLoad (siteEnv pages) u = d"
  by (simp add: siteEnv_def mkEnv_def)

lemma siteEnv_afterFetch_ok:
  assumes "map_of pages u = Some d"
  shows "afterFetch (siteEnv pages) u st =
           st\<lparr>visited := insert u (visited st), trace := trace st @ [Visited u, Fetch u, Request u]\<rparr>"
  by (simp add: afterFetch_def siteEnv_fetch_ok [OF assms])

lemma siteEnv_normalizeUrl:
  assumes "raw \<noteq> []" and "\<not> startsWith (toLowerCase raw) ''javascript:''"
    and "decodeHtmlEntities raw = raw"
  shows "normalizeUrl (siteEnv pages) (Some raw) base = Some raw"
  using assms by (simp add: normalizeUrl_def siteEnv_def mkEnv_def)

lemma siteEnv_MAX_DEPTH: "MAX_DEPTH (siteEnv pages) = 5"
  by (simp add: MAX_DEPTH_def siteEnv_def mkEnv_def)

lemma pageA_facts:
  "pageA \<noteq> []" "pageA \<noteq> pageB"
  "\<not> startsWith (toLowerCase pageA) ''javascript:''" "decodeHtmlEntities pageA = pageA"
  by (simp_all add: pageA_def pageB_def toLowerCase_def lowerChar_def decodeHtmlEntities_def entityTable_def)

lemma pageB_facts:
  "pageB \<noteq> []"
  "\<not> startsWith (toLowerCase pageB) ''javascript:''" "decodeHtmlEntities pageB = pageB"
  "includesStr pageB ''trembed''" "\<not> iframeNotToonstream pageB"
  by (simp_all add: pageB_def toLowerCase_def lowerChar_def decodeHtmlEntities_def entityTable_def
      iframeNotToonstream_def)

lemma cycle_pages:
  "map_of [(pageA, emptyDocument\<lparr>iframes := [tagWithSrc pageB]\<rparr>),
           (pageB, emptyDocument\<lparr>iframes := [tagWithSrc pageA]\<rparr>)] pageA
     = Some (emptyDocument\<lparr>iframes := [tagWithSrc pageB]\<rparr>)"
  "map_of [(pageA, emptyDocument\<lparr>iframes := [tagWithSrc pageB]\<rparr>),
           (pageB, emptyDocument\<lparr>iframes := [tagWithSrc pageA]\<rparr>)] pageB
     = Some (emptyDocument\<lparr>iframes := [tagWithSrc pageA]\<rparr>)"
  using pageA_facts(2) by simp_all

lemma cycle_stepA:
  "resolveStep cycleEnv pageA 0 {pageA} (emptyDocument\<lparr>iframes := [tagWithSrc pageB]\<rparr>) = Recurse (Some pageB)"
  using pageA_facts pageB_facts
  by (simp add: resolveStep_def emptyDocument_def tagWithSrc_def pickIframe_def iframeUrls_def orElse_def
      truthy_def truthyAnd_def cycleEnv_def siteEnv_normalizeUrl siteEnv_MAX_DEPTH needsFollow_def)

lemma cycle_stepB:
  "resolveStep cycleEnv pageB 1 {pageB, pageA} (emptyDocument\<lparr>iframes := [tagWithSrc pageA]\<rparr>) = Return (Some pageB)"
  using pageA_facts pageB_facts
  by (simp add: resolveStep_def emptyDocument_def tagWithSrc_def pickIframe_def iframeUrls_def orElse_def
      truthy_def truthyAnd_def cycleEnv_def siteEnv_normalizeUrl siteEnv_MAX_DEPTH
      pickFromScripts_def allCandidates_def)

lemma cycle_run:
  "extractRealVideoUrl cycleEnv (Some pageA) [] =
     (Some pageB,
      \<lparr>visited = {pageB, pageA},
       trace = [Visited pageA, Fetch pageA, Request pageA, Visited pageB, Fetch pageB, Request pageB]\<rparr>)"
proof -
  let ?pages = "[(pageA, emptyDocument\<lparr>iframes := [tagWithSrc pageB]\<rparr>),
                 (pageB, emptyDocument\<lparr>iframes := [tagWithSrc pageA]\<rparr>)]"
  let ?s0 = "\<lparr>visited = {}, trace = []\<rparr>"
  let ?s1 = "\<lparr>visited = {pageA}, trace = [Visited pageA, Fetch pageA, Request pageA]\<rparr>"
  have E: "cycleEnv = siteEnv ?pages" by (simp add: cycleEnv_def)
  have a1: "afterFetch cycleEnv pageA ?s0 = ?s1"
    unfolding E by (simp add: siteEnv_afterFetch_ok [OF cycle_pages(1)])
  have a2: "afterFetch cycleEnv pageB ?s1 =
      \<lparr>visited = {pageB, pageA},
       trace = [Visited pageA, Fetch pageA, Request pageA, Visited pageB, Fetch pageB, Request pageB]\<rparr>"
    unfolding E by (simp add: siteEnv_afterFetch_ok [OF cycle_pages(2)])
  have h1: "resolve cycleEnv (Some pageA) 0 ?s0 = resolve cycleEnv (Some pageB) (0 + 1) (afterFetch cycleEnv pageA ?s0)"
  proof (rule resolve_recurse)
    show "fst (fetchHtmlWithRetry cycleEnv pageA maxRetries (trace ?s0 @ [Visited pageA])) = Inr pageA"
      unfolding E by (simp add: siteEnv_fetch_ok [OF cycle_pages(1)])
    show "resolveStep cycleEnv pageA 0 (insert pageA (visited ?s0)) (cheerioLoad cycleEnv pageA) = Recurse (Some pageB)"
      using cycle_stepA by (simp add: E siteEnv_load [OF cycle_pages(1)])
  qed (simp_all add: pageA_facts E siteEnv_MAX_DEPTH)
  have h2: "resolve cycleEnv (Some pageB) 1 ?s1 = (Some pageB, afterFetch cycleEnv pageB ?s1)"
  proof (rule resolve_return)
    show "fst (fetchHtmlWithRetry cycleEnv pageB maxRetries (trace ?s1 @ [Visited pageB])) = Inr pageB"
      unfolding E by (simp add: siteEnv_fetch_ok [OF cycle_pages(2)])
    show "resolveStep cycleEnv pageB 1 (insert pageB (visited ?s1)) (cheerioLoad cycleEnv pageB) = Return (Some pageB)"
      using cycle_stepB by (simp add: E siteEnv_load [OF cycle_pages(2)])
    show "pageB \<notin> visited ?s1" using pageA_facts(2) by auto
  qed (simp_all add: pageB_facts E siteEnv_MAX_DEPTH)
  show ?thesis using h1 h2 a1 a2 by (simp add: extractRealVideoUrl_def)
qed

text \<open>
  C1. One call of \<open>extractRealVideoUrl\<close> always returns, after at most \<open>MAX_DEPTH + 1\<close>
  fetches (\<open>MAX_DEPTH\<close> is the configured depth plus 2), and it starts no two fetches
  of the same URL: every fetch of a URL comes after the URL was added to the visited-set.
  A hop whose URL is already visited, or whose depth exceeds \<open>MAX_DEPTH\<close>, returns that
  URL as it is, without an error and without touching the state.
\<close>

theorem extractRealVideoUrl_cycle_safe:
  "(\<exists>evs. trace (snd (extractRealVideoUrl E url tr)) = tr @ evs
        \<and> distinct (fetchesOf evs)
        \<and> visitedBeforeFetch evs
        \<and> int (length (fetchesOf evs)) \<le> max 0 (MAX_DEPTH E + 1))
   \<and> (\<forall>u depth st. u \<noteq> [] \<and> (u \<in> visited st \<or> int depth > MAX_DEPTH E) \<longrightarrow>
         resolve E (Some u) depth st = (Some u, st))"
proof
  from resolve_trace [of E url 0 "\<lparr>visited = {}, trace = tr\<rparr>"]
  show "\<exists>evs. trace (snd (extractRealVideoUrl E url tr)) = tr @ evs
        \<and> distinct (fetchesOf evs)
        \<and> visitedBeforeFetch evs
        \<and> int (length (fetchesOf evs)) \<le> max 0 (MAX_DEPTH E + 1)"
    unfolding extractRealVideoUrl_def by auto
next
  show "\<forall>u depth st. u \<noteq> [] \<and> (u \<in> visited st \<or> int depth > MAX_DEPTH E) \<longrightarrow>
         resolve E (Some u) depth st = (Some u, st)"
    using resolve_stop by blast
qed

theorem extractRealVideoUrl_cycle_safe_witness:
  "fst (extractRealVideoUrl cycleEnv (Some pageA) []) = Some pageB
   \<and> trace (snd (extractRealVideoUrl cycleEnv (Some pageA) [])) =
       [Visited pageA, Fetch pageA, Request pageA, Visited pageB, Fetch pageB, Request pageB]
   \<and> distinct (fetchesOf (trace (snd (extractRealVideoUrl cycleEnv (Some pageA) []))))
   \<and> visitedBeforeFetch (trace (snd (extractRealVideoUrl cycleEnv (Some pageA) [])))
   \<and> Visited pageB \<in> set (take 4 (trace (snd (extractRealVideoUrl cycleEnv (Some pageA) []))))
   \<and> pageA \<noteq> [] \<and> pageA \<in> visited \<lparr>visited = {pageA}, trace = []\<rparr>
   \<and> resolve cycleEnv (Some pageA) 1 \<lparr>visited = {pageA}, trace = []\<rparr> =
       (Some pageA, \<lparr>visited = {pageA}, trace = []\<rparr>)"
proof -
  note t = extractRealVideoUrl_cycle_safe [of cycleEnv "Some pageA" "[]"]
  let ?tr = "trace (snd (extractRealVideoUrl cycleEnv (Some pageA) []))"
  from t obtain evs where
    evs: "?tr = [] @ evs" "distinct (fetchesOf evs)" "visitedBeforeFetch evs"
    by blast
  have stop: "resolve cycleEnv (Some pageA) 1 \<lparr>visited = {pageA}, trace = []\<rparr> =
       (Some pageA, \<lparr>visited = {pageA}, trace = []\<rparr>)"
    by (rule t [THEN conjunct2, rule_format]) (simp add: pageA_facts)
  have tr: "?tr = [Visited pageA, Fetch pageA, Request pageA, Visited pageB, Fetch pageB, Request pageB]"
    by (simp add: cycle_run)
  have v: "visitedBeforeFetch ?tr" and d: "distinct (fetchesOf ?tr)" using evs by simp_all
  have "4 < length ?tr" and "?tr ! 4 = Fetch pageB" by (simp_all add: tr)
  with v have b: "Visited pageB \<in> set (take 4 ?tr)"
    unfolding visitedBeforeFetch_def by blast
  show ?thesis using v d b stop tr by (simp add: pageA_facts cycle_run)
qed

lemma downEnv_fetch:
  "fst (fetchHtmlWithRetry downEnv u maxRetries tr) = Inl (JsError (''Failed to fetch '' @ u @ '': ECONNREFUSED''))"
proof -
  have o: "attemptOutcome downEnv u tr k = ConnectionError ''ECONNREFUSED''" for k
    by (simp add: attemptOutcome_def downEnv_def mkEnv_def)
  have "\<forall>k. 1 \<le> k \<and> k \<le> maxRetries \<longrightarrow> \<not> accepted (attemptOutcome downEnv u tr k)"
    by (simp add: o accepted_def)
  from fetchHtmlWithRetry_exhausted [OF this] show ?thesis
    by (simp add: o maxRetries_def failureMessage_def lastMessage_def)
qed

text \<open>
  C2. When the fetch of a hop's page fails, that is, when \<open>fetchHtmlWithRetry\<close> throws
  after its attempts are used up, \<open>resolve\<close> returns null for that URL: not the URL, and
  not an exception.
\<close>

theorem resolve_fetch_failure_null:
  "(u \<noteq> [] \<and> u \<notin> visited st \<and> int depth \<le> MAX_DEPTH E
      \<and> fst (fetchHtmlWithRetry E u maxRetries (trace st @ [Visited u])) = Inl err
    \<longrightarrow> resolve E (Some u) depth st = (None, afterFetch E u st))
   \<and> (u \<noteq> [] \<and> u \<notin> visited st \<and> int depth \<le> MAX_DEPTH E
      \<and> (\<forall>k. 1 \<le> k \<and> k \<le> maxRetries \<longrightarrow>
            \<not> accepted (attemptOutcome E u (trace st @ [Visited u]) k))
    \<longrightarrow> fst (resolve E (Some u) depth st) = None)"
proof (intro conjI impI)
  assume "u \<noteq> [] \<and> u \<notin> visited st \<and> int depth \<le> MAX_DEPTH E
      \<and> fst (fetchHtmlWithRetry E u maxRetries (trace st @ [Visited u])) = Inl err"
  then show "resolve E (Some u) depth st = (None, afterFetch E u st)"
    using resolve_fetch_failed by blast
next
  assume a: "u \<noteq> [] \<and> u \<notin> visited st \<and> int depth \<le> MAX_DEPTH E
      \<and> (\<forall>k. 1 \<le> k \<and> k \<le> maxRetries \<longrightarrow>
            \<not> accepted (attemptOutcome E u (trace st @ [Visited u]) k))"
  then have "\<forall>k. 1 \<le> k \<and> k \<le> maxRetries \<longrightarrow>
            \<not> accepted (attemptOutcome E u (trace st @ [Visited u]) k)" by blast
  from fetchHtmlWithRetry_exhausted [OF this]
  obtain e where "fst (fetchHtmlWithRetry E u maxRetries (trace st @ [Visited u])) = Inl e" by simp
  with a resolve_fetch_failed [of u st depth E e] show "fst (resolve E (Some u) depth st) = None"
    by simp
qed

theorem resolve_fetch_failure_null_witness:
  "pageA \<noteq> [] \<and> pageA \<notin> visited \<lparr>visited = {}, trace = []\<rparr>
   \<and> int 0 \<le> MAX_DEPTH downEnv
   \<and> fst (fetchHtmlWithRetry downEnv pageA maxRetries (trace \<lparr>visited = {}, trace = []\<rparr> @ [Visited pageA]))
       = Inl (JsError (''Failed to fetch '' @ pageA @ '': ECONNREFUSED''))
   \<and> fst (resolve downEnv (Some pageA) 0 \<lparr>visited = {}, trace = []\<rparr>) = None"
proof -
  let ?s = "\<lparr>visited = {}, trace = []\<rparr>"
  have h: "pageA \<noteq> [] \<and> pageA \<notin> visited ?s \<and> int 0 \<le> MAX_DEPTH downEnv
      \<and> fst (fetchHtmlWithRetry downEnv pageA maxRetries (trace ?s @ [Visited pageA]))
          = Inl (JsError (''Failed to fetch '' @ pageA @ '': ECONNREFUSED''))"
    using downEnv_fetch [of pageA] by (simp add: pageA_facts MAX_DEPTH_def downEnv_def mkEnv_def)
  have "resolve downEnv (Some pageA) 0 ?s = (None, afterFetch downEnv pageA ?s)"
    by (rule resolve_fetch_failure_null [THEN conjunct1, THEN mp]) (rule h)
  then show ?thesis using h by simp
qed


lemma pickIframe_Some:
  "pickIframe E u vis frames = Some i \<Longrightarrow> i \<noteq> [] \<and> i \<noteq> u \<and> i \<notin> vis"
proof -
  assume "pickIframe E u vis frames = Some i"
  then have "i \<in> set (iframeUrls E u vis frames)"
    by (auto simp: pickIframe_def split: list.splits)
  then show ?thesis
    by (auto simp: iframeUrls_def Let_def split: option.splits if_splits)
qed


lemma resolveStep_external:
  assumes "\<not> truthyAnd (pickDirectVideo E u (videoTags doc)) isVideoUrl"
    and "pickIframe E u vis (iframes doc) = Some i" and "int depth < MAX_DEPTH E"
    and "iframeNotToonstream i" and "isVideoPlayer i \<or> isVideoUrl i \<or> startsWith i ''http''"
  shows "resolveStep E u depth vis doc = Return (Some i)"
proof -
  have "i \<noteq> []" using pickIframe_Some [OF assms(2)] by simp
  then show ?thesis
    using assms by (auto simp: resolveStep_def Let_def truthy_def truthyAnd_def)
qed

lemma site_hop:
  assumes "map_of pages u = Some d" and "u \<noteq> []"
    and "resolveStep (siteEnv pages) u 0 {u} d = Return r"
  shows "extractRealVideoUrl (siteEnv pages) (Some u) tr =
           (r, \<lparr>visited = {u}, trace = tr @ [Visited u, Fetch u, Request u]\<rparr>)"
proof -
  let ?s0 = "\<lparr>visited = {}, trace = tr\<rparr>"
  have "resolve (siteEnv pages) (Some u) 0 ?s0 = (r, afterFetch (siteEnv pages) u ?s0)"
  proof (rule resolve_return)
    show "fst (fetchHtmlWithRetry (siteEnv pages) u maxRetries (trace ?s0 @ [Visited u])) = Inr u"
      by (simp add: siteEnv_fetch_ok [OF assms(1)])
    show "resolveStep (siteEnv pages) u 0 (insert u (visited ?s0)) (cheerioLoad (siteEnv pages) u) = Return r"
      using assms(3) by (simp add: siteEnv_load [OF assms(1)])
  qed (simp_all add: assms(2) siteEnv_MAX_DEPTH)
  then show ?thesis
    by (simp add: extractRealVideoUrl_def siteEnv_afterFetch_ok [OF assms(1)])
qed

lemma site_single_hop:
  assumes "map_of pages u = Some d" and "u \<noteq> []"
    and "resolveStep (siteEnv pages) u 0 {u} d = Return r"
  shows "extractRealVideoUrl (siteEnv pages) (Some u) [] =
           (r, \<lparr>visited = {u}, trace = [Visited u, Fetch u, Request u]\<rparr>)"
  using site_hop [OF assms, of "[]"] by simp

lemma site_missing:
  assumes "map_of pages u = None" and "u \<noteq> []"
  shows "extractRealVideoUrl (siteEnv pages) (Some u) tr =
           (None, \<lparr>visited = {u}, trace = tr @ Visited u # Fetch u # failedAttempts u 3\<rparr>)"
proof -
  let ?s0 = "\<lparr>visited = {}, trace = tr\<rparr>"
  have "resolve (siteEnv pages) (Some u) 0 ?s0 = (None, afterFetch (siteEnv pages) u ?s0)"
  proof (rule resolve_fetch_failed)
    show "fst (fetchHtmlWithRetry (siteEnv pages) u maxRetries (trace ?s0 @ [Visited u])) =
            Inl (JsError (''Failed to fetch '' @ u @ '': ENOTFOUND''))"
      by (simp add: siteEnv_fetch_failed [OF assms(1)])
  qed (simp_all add: assms(2) siteEnv_MAX_DEPTH)
  then show ?thesis
    by (simp add: extractRealVideoUrl_def afterFetch_def siteEnv_fetch_failed [OF assms(1)])
qed

lemma example_urls_normalize:
  "normalizeUrl (siteEnv pages) (Some clipUrl) base = Some clipUrl"
  "normalizeUrl (siteEnv pages) (Some mp4Url) base = Some mp4Url"
  "normalizeUrl (siteEnv pages) (Some tapeUrl) base = Some tapeUrl"
  "normalizeUrl (siteEnv pages) (Some ftpUrl) base = Some ftpUrl"
  by (rule siteEnv_normalizeUrl;
      simp add: clipUrl_def mp4Url_def tapeUrl_def ftpUrl_def toLowerCase_def lowerChar_def
        decodeHtmlEntities_def entityTable_def)+



lemma tapeUrl_facts:
  "tapeUrl \<noteq> []" "tapeUrl \<noteq> pageA" "iframeNotToonstream tapeUrl" "isVideoPlayer tapeUrl"
  "includesStr tapeUrl ''streamtape''"
  by (simp_all add: tapeUrl_def pageA_def iframeNotToonstream_def isVideoPlayer_def playerMarkers_def)

lemma ftpUrl_facts:
  "ftpUrl \<noteq> []" "ftpUrl \<noteq> pageA" "iframeNotToonstream ftpUrl" "\<not> isVideoPlayer ftpUrl"
  "\<not> isVideoUrl ftpUrl" "\<not> startsWith ftpUrl ''http''"
  by (simp_all add: ftpUrl_def pageA_def iframeNotToonstream_def isVideoPlayer_def playerMarkers_def
      isVideoUrl_def videoExtensions_def toLowerCase_def lowerChar_def)

lemma ftpUrl_not_followed: "\<not> needsFollow (siteEnv pages) ftpUrl" "\<not> isToonstreamUrl (siteEnv pages) ftpUrl"
  by (simp_all add: needsFollow_def isToonstreamUrl_def TOONSTREAM_HOST_def siteEnv_def mkEnv_def
      hostnameOf_def stripWww_def truthy_def ftpUrl_def)



lemma pick_iframe_tape:
  "pickIframe (siteEnv pages) pageA {pageA} (iframes clipPage) = Some tapeUrl"
  "pickIframe (siteEnv pages) pageA {pageA} (iframes tapePage) = Some tapeUrl"
  by (simp_all add: clipPage_def tapePage_def emptyDocument_def tagWithSrc_def orElse_def truthy_def
      pickIframe_def iframeUrls_def example_urls_normalize tapeUrl_facts)

lemma pick_iframe_ftp:
  "pickIframe (siteEnv pages) pageA {pageA} (iframes ftpPage) = Some ftpUrl"
  by (simp add: ftpPage_def emptyDocument_def tagWithSrc_def orElse_def truthy_def
      pickIframe_def iframeUrls_def example_urls_normalize ftpUrl_facts)










lemma ftp_step:
  "resolveStep (siteEnv pages) pageA 0 {pageA} ftpPage = Recurse (Some ftpUrl)"
proof -
  have v: "videoTags ftpPage = []" and m: "scriptMatches ftpPage = []"
    by (simp_all add: ftpPage_def emptyDocument_def)
  show ?thesis
    by (simp add: resolveStep_def v m pick_iframe_ftp truthy_def truthyAnd_def ftpUrl_facts
        ftpUrl_not_followed siteEnv_MAX_DEPTH pickFromScripts_def allCandidates_def)
qed

lemma ftp_run:
  "extractRealVideoUrl (siteEnv [(pageA, ftpPage)]) (Some pageA) [] =
     (None,
      \<lparr>visited = {ftpUrl, pageA},
       trace = [Visited pageA, Fetch pageA, Request pageA, Visited ftpUrl, Fetch ftpUrl,
                Request ftpUrl, Delay 500, Request ftpUrl, Delay 1000, Request ftpUrl, Delay 1500]\<rparr>)"
proof -
  let ?E = "siteEnv [(pageA, ftpPage)]"
  let ?s0 = "\<lparr>visited = {}, trace = []\<rparr>"
  let ?s1 = "\<lparr>visited = {pageA}, trace = [Visited pageA, Fetch pageA, Request pageA]\<rparr>"
  have m: "map_of [(pageA, ftpPage)] pageA = Some ftpPage" by simp
  have n: "map_of [(pageA, ftpPage)] ftpUrl = None" using ftpUrl_facts(2) by simp
  have a1: "afterFetch ?E pageA ?s0 = ?s1"
    by (simp add: siteEnv_afterFetch_ok [OF m])
  have h1: "resolve ?E (Some pageA) 0 ?s0 = resolve ?E (Some ftpUrl) (0 + 1) (afterFetch ?E pageA ?s0)"
  proof (rule resolve_recurse)
    show "fst (fetchHtmlWithRetry ?E pageA maxRetries (trace ?s0 @ [Visited pageA])) = Inr pageA"
      by (simp add: siteEnv_fetch_ok [OF m])
    show "resolveStep ?E pageA 0 (insert pageA (visited ?s0)) (cheerioLoad ?E pageA) = Recurse (Some ftpUrl)"
      using ftp_step by (simp add: siteEnv_load [OF m])
  qed (simp_all add: pageA_facts siteEnv_MAX_DEPTH)
  have h2: "resolve ?E (Some ftpUrl) 1 ?s1 = (None, afterFetch ?E ftpUrl ?s1)"
  proof (rule resolve_fetch_failed)
    show "fst (fetchHtmlWithRetry ?E ftpUrl maxRetries (trace ?s1 @ [Visited ftpUrl])) =
            Inl (JsError (''Failed to fetch '' @ ftpUrl @ '': ENOTFOUND''))"
      by (simp add: siteEnv_fetch_failed [OF n])
    show "ftpUrl \<notin> visited ?s1" using ftpUrl_facts(2) by simp
  qed (simp_all add: ftpUrl_facts siteEnv_MAX_DEPTH)
  have a2: "afterFetch ?E ftpUrl ?s1 =
      \<lparr>visited = {ftpUrl, pageA},
       trace = [Visited pageA, Fetch pageA, Request pageA, Visited ftpUrl, Fetch ftpUrl,
                Request ftpUrl, Delay 500, Request ftpUrl, Delay 1000, Request ftpUrl, Delay 1500]\<rparr>"
    by (simp add: afterFetch_def siteEnv_fetch_failed [OF n] failedAttempts_3)
  show ?thesis using h1 h2 a1 a2 by (simp add: extractRealVideoUrl_def)
qed

text \<open>
  C4 (as stated) fails: an iframe to an external, unclassified host whose URL does not
  start with \<open>http\<close> is not returned. The resolver goes on to the scripts, then
  fetches the iframe URL itself, and here ends with nothing.
\<close>

theorem external_iframe_counterexample:
  "pickIframe (siteEnv [(pageA, ftpPage)]) pageA {pageA} (iframes ftpPage) = Some ftpUrl
   \<and> iframeNotToonstream ftpUrl
   \<and> \<not> isToonstreamUrl (siteEnv [(pageA, ftpPage)]) ftpUrl
   \<and> fst (extractRealVideoUrl (siteEnv [(pageA, ftpPage)]) (Some pageA) []) = None
   \<and> fetchesOf (trace (snd (extractRealVideoUrl (siteEnv [(pageA, ftpPage)]) (Some pageA) [])))
       = [pageA, ftpUrl]"
  by (simp add: ftp_run pick_iframe_ftp ftpUrl_facts ftpUrl_not_followed)

text \<open>
  C4 (as the code has it). When the page has no direct video that passes
  \<open>isVideoUrl\<close>, the depth is below \<open>MAX_DEPTH\<close>, and the first usable iframe URL carries
  none of the markers \<open>toonstream.one\<close>, \<open>trembed\<close>, \<open>trid=\<close>, \<open>trtype=\<close> and either matches
  the player list, or passes \<open>isVideoUrl\<close>, or starts with \<open>http\<close>, the hop returns that
  URL, and the resolution ends with the page as its only fetch.
\<close>

theorem resolve_external_iframe:
  "(\<not> truthyAnd (pickDirectVideo E u (videoTags doc)) isVideoUrl
      \<and> pickIframe E u vis (iframes doc) = Some i \<and> int depth < MAX_DEPTH E
      \<and> iframeNotToonstream i \<and> (isVideoPlayer i \<or> isVideoUrl i \<or> startsWith i ''http'')
    \<longrightarrow> resolveStep E u depth vis doc = Return (Some i))
   \<and> (u \<noteq> [] \<and> u \<notin> visited st
      \<and> fst (fetchHtmlWithRetry E u maxRetries (trace st @ [Visited u])) = Inr html
      \<and> \<not> truthyAnd (pickDirectVideo E u (videoTags (cheerioLoad E html))) isVideoUrl
      \<and> pickIframe E u (insert u (visited st)) (iframes (cheerioLoad E html)) = Some i
      \<and> int depth < MAX_DEPTH E
      \<and> iframeNotToonstream i \<and> (isVideoPlayer i \<or> isVideoUrl i \<or> startsWith i ''http'')
    \<longrightarrow> resolve E (Some u) depth st = (Some i, afterFetch E u st)
        \<and> (\<exists>evs. trace (afterFetch E u st) = trace st @ evs \<and> fetchesOf evs = [u]))"
proof -
  have a: "\<not> truthyAnd (pickDirectVideo E u (videoTags doc)) isVideoUrl
      \<and> pickIframe E u vis (iframes doc) = Some i \<and> int depth < MAX_DEPTH E
      \<and> iframeNotToonstream i \<and> (isVideoPlayer i \<or> isVideoUrl i \<or> startsWith i ''http'')
    \<longrightarrow> resolveStep E u depth vis doc = Return (Some i)"
    using resolveStep_external by blast
  have b: "u \<noteq> [] \<and> u \<notin> visited st
      \<and> fst (fetchHtmlWithRetry E u maxRetries (trace st @ [Visited u])) = Inr html
      \<and> \<not> truthyAnd (pickDirectVideo E u (videoTags (cheerioLoad E html))) isVideoUrl
      \<and> pickIframe E u (insert u (visited st)) (iframes (cheerioLoad E html)) = Some i
      \<and> int depth < MAX_DEPTH E
      \<and> iframeNotToonstream i \<and> (isVideoPlayer i \<or> isVideoUrl i \<or> startsWith i ''http'')
    \<longrightarrow> resolve E (Some u) depth st = (Some i, afterFetch E u st)
        \<and> (\<exists>evs. trace (afterFetch E u st) = trace st @ evs \<and> fetchesOf evs = [u])"
  proof
    assume h: "u \<noteq> [] \<and> u \<notin> visited st
      \<and> fst (fetchHtmlWithRetry E u maxRetries (trace st @ [Visited u])) = Inr html
      \<and> \<not> truthyAnd (pickDirectVideo E u (videoTags (cheerioLoad E html))) isVideoUrl
      \<and> pickIframe E u (insert u (visited st)) (iframes (cheerioLoad E html)) = Some i
      \<and> int depth < MAX_DEPTH E
      \<and> iframeNotToonstream i \<and> (isVideoPlayer i \<or> isVideoUrl i \<or> startsWith i ''http'')"
    then have s: "resolveStep E u depth (insert u (visited st)) (cheerioLoad E html) = Return (Some i)"
      using resolveStep_external by blast
    have d: "int depth \<le> MAX_DEPTH E" using h by simp
    have r: "resolve E (Some u) depth st = (Some i, afterFetch E u st)"
      using resolve_return [OF _ _ d _ s] h by blast
    obtain evs1 where "trace (afterFetch E u st) = trace st @ Visited u # Fetch u # evs1"
      "fetchesOf evs1 = []"
      using afterFetch_trace by blast
    then have "trace (afterFetch E u st) = trace st @ (Visited u # Fetch u # evs1)
        \<and> fetchesOf (Visited u # Fetch u # evs1) = [u]" by simp
    then have "\<exists>evs. trace (afterFetch E u st) = trace st @ evs \<and> fetchesOf evs = [u]" by blast
    with r show "resolve E (Some u) depth st = (Some i, afterFetch E u st)
        \<and> (\<exists>evs. trace (afterFetch E u st) = trace st @ evs \<and> fetchesOf evs = [u])" by simp
  qed
  show ?thesis using a b by (intro conjI)
qed

theorem resolve_external_iframe_witness:
  "\<not> truthyAnd (pickDirectVideo (siteEnv [(pageA, tapePage)]) pageA (videoTags tapePage)) isVideoUrl
   \<and> pickIframe (siteEnv [(pageA, tapePage)]) pageA {pageA} (iframes tapePage) = Some tapeUrl
   \<and> int 0 < MAX_DEPTH (siteEnv [(pageA, tapePage)])
   \<and> iframeNotToonstream tapeUrl \<and> includesStr tapeUrl ''streamtape'' \<and> isVideoPlayer tapeUrl
   \<and> resolveStep (siteEnv [(pageA, tapePage)]) pageA 0 {pageA} tapePage = Return (Some tapeUrl)
   \<and> extractRealVideoUrl (siteEnv [(pageA, tapePage)]) (Some pageA) [] =
       (Some tapeUrl, \<lparr>visited = {pageA}, trace = [Visited pageA, Fetch pageA, Request pageA]\<rparr>)"
proof -
  let ?E = "siteEnv [(pageA, tapePage)]"
  have v: "videoTags tapePage = []" by (simp add: tapePage_def emptyDocument_def)
  have h: "\<not> truthyAnd (pickDirectVideo ?E pageA (videoTags tapePage)) isVideoUrl
      \<and> pickIframe ?E pageA {pageA} (iframes tapePage) = Some tapeUrl \<and> int 0 < MAX_DEPTH ?E
      \<and> iframeNotToonstream tapeUrl
      \<and> (isVideoPlayer tapeUrl \<or> isVideoUrl tapeUrl \<or> startsWith tapeUrl ''http'')"
    by (simp add: v truthyAnd_def pick_iframe_tape tapeUrl_facts siteEnv_MAX_DEPTH)
  have s: "resolveStep ?E pageA 0 {pageA} tapePage = Return (Some tapeUrl)"
    by (rule resolve_external_iframe [THEN conjunct1, THEN mp]) (rule h)
  have m: "map_of [(pageA, tapePage)] pageA = Some tapePage" by simp
  have r: "extractRealVideoUrl ?E (Some pageA) [] =
       (Some tapeUrl, \<lparr>visited = {pageA}, trace = [Visited pageA, Fetch pageA, Request pageA]\<rparr>)"
    by (rule site_single_hop [OF m pageA_facts(1) s])
  show ?thesis using h s r by (simp add: tapeUrl_facts)
qed

section \<open>Properties of the embeds list\<close>

lemma addPlayerOptions_direct:
  "\<forall>s \<in> set (fst acc). directServerOk s \<Longrightarrow>
     \<forall>s \<in> set (fst (addPlayerOptions els acc)). directServerOk s"
proof (induction els acc rule: addPlayerOptions.induct)
  case (1 acc)
  then show ?case by simp
next
  case (2 el els serverOptions seen)
  then show ?case
    by (auto simp: Let_def directServerOk_def truthy_def split: option.splits if_splits)
qed

lemma addIframes_direct:
  "\<forall>s \<in> set (fst acc). directServerOk s \<Longrightarrow>
     \<forall>s \<in> set (fst (addIframes E els acc)). directServerOk s"
proof (induction E els acc rule: addIframes.induct)
  case (1 E acc)
  then show ?case by simp
next
  case (2 E el els serverOptions seen)
  then show ?case
    by (auto simp: Let_def directServerOk_def truthy_def orDefault_def externalUrl_def
        split: option.splits if_splits)
qed

lemma serverOptionsOf_direct: "\<forall>s \<in> set (serverOptionsOf E doc). directServerOk s"
  unfolding serverOptionsOf_def
  by (rule addIframes_direct, rule addPlayerOptions_direct) simp

lemma usable_entry:
  assumes "usable (fst (extractRealVideoUrl E (Some t) tr)) (Some t)"
  shows "entryResolved E \<lparr>embed_ordinal = n,
            embed_url = orDefault (fst (extractRealVideoUrl E (Some t) tr)) [],
            intermediate_url = Some t\<rparr>"
proof -
  from assms obtain v where v: "fst (extractRealVideoUrl E (Some t) tr) = Some v" "v \<noteq> []"
    "v \<noteq> t" "\<not> includesStr v ''toonstream.one''" "\<not> includesStr v ''trembed''"
    by (auto simp: usable_def truthyAnd_def split: option.splits)
  then show ?thesis by (auto simp: entryResolved_def orDefault_def)
qed

lemma embedsLoop_resolved:
  assumes "\<forall>e \<in> set embeds. entryResolved E e" and "\<forall>s \<in> set srvs. directServerOk s"
  shows "\<forall>e \<in> set (fst (embedsLoop E srvs embeds tr)). entryResolved E e"
  using assms
proof (induction srvs arbitrary: embeds tr)
  case Nil
  then show ?case by simp
next
  case (Cons server rest)
  have rest: "\<forall>s \<in> set rest. directServerOk s" using Cons.prems(2) by simp
  show ?case
  proof (cases "truthy (directUrl server)")
    case True
    then have "externalUrl (orDefault (directUrl server) [])" and "orDefault (directUrl server) [] \<noteq> []"
      using Cons.prems(2) by (auto simp: directServerOk_def truthy_def orDefault_def split: option.splits)
    then have "entryResolved E \<lparr>embed_ordinal = server_ordinal server,
                 embed_url = orDefault (directUrl server) [], intermediate_url = None\<rparr>"
      by (simp add: entryResolved_def)
    then have "\<forall>e \<in> set (embeds @ [\<lparr>embed_ordinal = server_ordinal server,
                 embed_url = orDefault (directUrl server) [], intermediate_url = None\<rparr>]). entryResolved E e"
      using Cons.prems(1) by simp
    from Cons.IH [OF this rest] True show ?thesis by simp
  next
    case False
    show ?thesis
    proof (cases "truthy (trembedUrl server)")
      case nt: False
      with False Cons.IH [OF Cons.prems(1) rest] show ?thesis by simp
    next
      case True
      then obtain t where t: "trembedUrl server = Some t" by (auto simp: truthy_def split: option.splits)
      show ?thesis
      proof (cases "usable (fst (extractRealVideoUrl E (Some t) tr)) (Some t)")
        case u: True
        have "\<forall>e \<in> set (embeds @ [\<lparr>embed_ordinal = server_ordinal server,
                 embed_url = orDefault (fst (extractRealVideoUrl E (Some t) tr)) [],
                 intermediate_url = Some t\<rparr>]). entryResolved E e"
          using Cons.prems(1) usable_entry [OF u] by simp
        from Cons.IH [OF this rest] False True u t show ?thesis by (simp add: Let_def)
      next
        case nu: False
        with False True t Cons.IH [OF Cons.prems(1) rest] show ?thesis by (simp add: Let_def)
      qed
    qed
  qed
qed

lemma embedsLoop_dropped:
  assumes "\<not> truthy (directUrl server)" and "truthy (trembedUrl server)"
    and "\<not> usable (fst (extractRealVideoUrl E (trembedUrl server) tr)) (trembedUrl server)"
  shows "embedsLoop E (server # rest) embeds tr =
           embedsLoop E rest embeds (trace (snd (extractRealVideoUrl E (trembedUrl server) tr)) @ [Delay 300])"
  using assms by (simp add: Let_def)

text \<open>
  What the tests of \<open>extractEmbeds\<close> give for every setting: an entry made from a
  redirector candidate holds a URL that a resolution of the candidate returned, not
  empty, different from the candidate's own URL, and containing neither of the texts
  \<open>toonstream.one\<close> and \<open>trembed\<close>; an entry made from an iframe of the page holds a
  URL without these texts and without \<open>trid=\<close>. A candidate whose resolution is not
  usable adds nothing, and the loop goes on with the next server.
\<close>

lemma extractEmbeds_entries_usable:
  "(\<forall>e \<in> set (fst (extractEmbeds E html episodeUrl tr)).
      case intermediate_url e of
        Some t \<Rightarrow>
          embed_url e \<noteq> [] \<and> embed_url e \<noteq> t
          \<and> \<not> includesStr (embed_url e) ''toonstream.one'' \<and> \<not> includesStr (embed_url e) ''trembed''
          \<and> (\<exists>tr'. fst (extractRealVideoUrl E (Some t) tr') = Some (embed_url e))
      | None \<Rightarrow> embed_url e \<noteq> [] \<and> externalUrl (embed_url e))
   \<and> (\<not> truthy (directUrl server) \<and> truthy (trembedUrl server)
      \<and> \<not> usable (fst (extractRealVideoUrl E (trembedUrl server) tr)) (trembedUrl server)
      \<longrightarrow> embedsLoop E (server # rest) embeds tr =
            embedsLoop E rest embeds
              (trace (snd (extractRealVideoUrl E (trembedUrl server) tr)) @ [Delay 300]))"
proof
  have "\<forall>e \<in> set (fst (extractEmbeds E html episodeUrl tr)). entryResolved E e"
    unfolding extractEmbeds_def
    by (rule embedsLoop_resolved) (simp_all add: serverOptionsOf_direct)
  then show "\<forall>e \<in> set (fst (extractEmbeds E html episodeUrl tr)).
      case intermediate_url e of
        Some t \<Rightarrow>
          embed_url e \<noteq> [] \<and> embed_url e \<noteq> t
          \<and> \<not> includesStr (embed_url e) ''toonstream.one'' \<and> \<not> includesStr (embed_url e) ''trembed''
          \<and> (\<exists>tr'. fst (extractRealVideoUrl E (Some t) tr') = Some (embed_url e))
      | None \<Rightarrow> embed_url e \<noteq> [] \<and> externalUrl (embed_url e)"
    by (simp add: entryResolved_def)
next
  show "\<not> truthy (directUrl server) \<and> truthy (trembedUrl server)
      \<and> \<not> usable (fst (extractRealVideoUrl E (trembedUrl server) tr)) (trembedUrl server)
      \<longrightarrow> embedsLoop E (server # rest) embeds tr =
            embedsLoop E rest embeds
              (trace (snd (extractRealVideoUrl E (trembedUrl server) tr)) @ [Delay 300])"
    using embedsLoop_dropped by blast
qed

lemma episode_servers: "serverOptionsOf E episodePage = [serverA, serverB]"
  by (simp add: serverOptionsOf_def episodePage_def emptyDocument_def orDefault_def Let_def
      serverA_def serverB_def pageA_def pageB_def)

lemma tape_step: "resolveStep (siteEnv pages) pageA 0 {pageA} tapePage = Return (Some tapeUrl)"
proof -
  have v: "videoTags tapePage = []" by (simp add: tapePage_def emptyDocument_def)
  have n: "\<not> truthyAnd (pickDirectVideo (siteEnv pages) pageA (videoTags tapePage)) isVideoUrl"
    by (simp add: v truthyAnd_def)
  show ?thesis
    by (rule resolveStep_external [OF n pick_iframe_tape(2)])
       (simp_all add: tapeUrl_facts siteEnv_MAX_DEPTH)
qed

lemma episode_pages:
  "map_of [(episodeUrl25, episodePage), (pageA, tapePage)] pageA = Some tapePage"
  "map_of [(episodeUrl25, episodePage), (pageA, tapePage)] pageB = None"
  "map_of [(episodeUrl25, episodePage), (pageA, tapePage)] episodeUrl25 = Some episodePage"
  by (simp_all add: episodeUrl25_def pageA_def pageB_def)

lemma episode_resolve_A:
  "extractRealVideoUrl episodeEnv (Some pageA) tr =
     (Some tapeUrl, \<lparr>visited = {pageA}, trace = tr @ [Visited pageA, Fetch pageA, Request pageA]\<rparr>)"
  unfolding episodeEnv_def by (rule site_hop [OF episode_pages(1) pageA_facts(1) tape_step])

lemma episode_resolve_B:
  "extractRealVideoUrl episodeEnv (Some pageB) tr =
     (None, \<lparr>visited = {pageB}, trace = tr @ Visited pageB # Fetch pageB # failedAttempts pageB 3\<rparr>)"
  unfolding episodeEnv_def by (rule site_missing [OF episode_pages(2) pageB_facts(1)])

lemma tape_usable: "usable (Some tapeUrl) (Some pageA)"
  using tapeUrl_facts by (simp add: usable_def truthyAnd_def iframeNotToonstream_def)

lemma episode_embeds:
  "fst (extractEmbeds episodeEnv episodeUrl25 episodeUrl25 []) =
     [\<lparr>embed_ordinal = NumePlusOne ''0'', embed_url = tapeUrl, intermediate_url = Some pageA\<rparr>]"
proof -
  have l: "cheerioLoad episodeEnv episodeUrl25 = episodePage"
    unfolding episodeEnv_def by (rule siteEnv_load [OF episode_pages(3)])
  show ?thesis
    using tape_usable tapeUrl_facts(1)
    by (simp add: extractEmbeds_def l episode_servers serverA_def serverB_def truthy_def
        pageA_facts pageB_facts episode_resolve_A episode_resolve_B Let_def orDefault_def
        usable_def [of None] truthyAnd_def [of None])
qed

lemma extractEmbeds_entries_usable_example:
  "fst (extractEmbeds episodeEnv episodeUrl25 episodeUrl25 []) =
     [\<lparr>embed_ordinal = NumePlusOne ''0'', embed_url = tapeUrl, intermediate_url = Some pageA\<rparr>]
   \<and> tapeUrl \<noteq> [] \<and> tapeUrl \<noteq> pageA
   \<and> \<not> includesStr tapeUrl ''toonstream.one'' \<and> \<not> includesStr tapeUrl ''trembed''
   \<and> \<not> truthy (directUrl serverB) \<and> truthy (trembedUrl serverB)
   \<and> \<not> usable (fst (extractRealVideoUrl episodeEnv (trembedUrl serverB) [])) (trembedUrl serverB)
   \<and> embedsLoop episodeEnv [serverB] [] [] =
       ([], Visited pageB # Fetch pageB # failedAttempts pageB 3 @ [Delay 300])"
proof -
  note t = extractEmbeds_entries_usable
    [where E = episodeEnv and html = episodeUrl25 and episodeUrl = episodeUrl25 and tr = "[]"
       and server = serverB and rest = "[]" and embeds = "[]"]
  let ?e = "\<lparr>embed_ordinal = NumePlusOne ''0'', embed_url = tapeUrl, intermediate_url = Some pageA\<rparr>"
  have "?e \<in> set (fst (extractEmbeds episodeEnv episodeUrl25 episodeUrl25 []))"
    by (simp add: episode_embeds)
  with t have "case intermediate_url ?e of
        Some t \<Rightarrow>
          embed_url ?e \<noteq> [] \<and> embed_url ?e \<noteq> t
          \<and> \<not> includesStr (embed_url ?e) ''toonstream.one'' \<and> \<not> includesStr (embed_url ?e) ''trembed''
          \<and> (\<exists>tr'. fst (extractRealVideoUrl episodeEnv (Some t) tr') = Some (embed_url ?e))
      | None \<Rightarrow> embed_url ?e \<noteq> [] \<and> externalUrl (embed_url ?e)"
    by blast
  then have a: "tapeUrl \<noteq> [] \<and> tapeUrl \<noteq> pageA
     \<and> \<not> includesStr tapeUrl ''toonstream.one'' \<and> \<not> includesStr tapeUrl ''trembed''"
    by simp
  have h: "\<not> truthy (directUrl serverB) \<and> truthy (trembedUrl serverB)
      \<and> \<not> usable (fst (extractRealVideoUrl episodeEnv (trembedUrl serverB) [])) (trembedUrl serverB)"
    by (simp add: serverB_def truthy_def pageB_facts episode_resolve_B usable_def truthyAnd_def)
  have "embedsLoop episodeEnv (serverB # []) [] [] =
          embedsLoop episodeEnv [] []
            (trace (snd (extractRealVideoUrl episodeEnv (trembedUrl serverB) [])) @ [Delay 300])"
    by (rule t [THEN conjunct2, THEN mp]) (rule h)
  then have b: "embedsLoop episodeEnv [serverB] [] [] =
       ([], Visited pageB # Fetch pageB # failedAttempts pageB 3 @ [Delay 300])"
    by (simp add: serverB_def episode_resolve_B)
  show ?thesis using a h b episode_embeds by simp
qed

lemma mirror_distinct: "pageA \<noteq> mirrorEpisodeUrl" "pageB \<noteq> mirrorEpisodeUrl" "pageB \<noteq> pageA"
  by (simp_all add: mirrorEpisodeUrl_def pageA_def pageB_def)

lemma mirror_fetch_A:
  "fetchHtmlWithRetry mirrorEnv pageA maxRetries tr = (Inr pageA, tr @ [Fetch pageA, Request pageA])"
proof -
  have o: "attemptOutcome mirrorEnv pageA tr 1 = Response 200 pageA"
    by (simp add: attemptOutcome_def mirrorEnv_def siteEnv_def mkEnv_def mirror_distinct)
  have "fetchHtmlWithRetry mirrorEnv pageA maxRetries tr =
          (Inr pageA, tr @ Fetch pageA # failedAttempts pageA (1 - 1) @ [Request pageA])"
    by (rule fetchHtmlWithRetry_success [OF _ _ _ o]) (simp_all add: maxRetries_def)
  then show ?thesis by (simp add: failedAttempts_0)
qed

lemma mirror_fetch_B:
  "fetchHtmlWithRetry mirrorEnv pageB maxRetries tr =
     (Inl (JsError (''Failed to fetch '' @ pageB @ '': ENOTFOUND'')),
      tr @ Fetch pageB # failedAttempts pageB 3)"
proof -
  have o: "attemptOutcome mirrorEnv pageB tr k = ConnectionError ''ENOTFOUND''" for k
    by (simp add: attemptOutcome_def mirrorEnv_def siteEnv_def mkEnv_def mirror_distinct)
  have "\<forall>k. 1 \<le> k \<and> k \<le> maxRetries \<longrightarrow> \<not> accepted (attemptOutcome mirrorEnv pageB tr k)"
    by (simp add: o accepted_def)
  from fetchHtmlWithRetry_exhausted [OF this] show ?thesis
    by (simp add: o maxRetries_def failureMessage_def lastMessage_def)
qed

lemma mirror_settings:
  "MAX_DEPTH mirrorEnv = 5" "cheerioLoad mirrorEnv pageA = mirrorPage"
  "cheerioLoad mirrorEnv mirrorEpisodeUrl = episodePage"
  "homeUrl mirrorEnv = ''https://toonstream.love/home/''"
  "TOONSTREAM_HOST mirrorEnv = Some ''toonstream.love''"
  "urlHostname mirrorEnv = hostnameOf"
  by (simp_all add: MAX_DEPTH_def mirrorEnv_def siteEnv_def mkEnv_def mirror_distinct mirrorHome_def
      TOONSTREAM_HOST_def hostnameOf_def stripWww_def)

lemma mirrorUrl_facts:
  "mirrorUrl \<noteq> []" "mirrorUrl \<noteq> pageA" "iframeNotToonstream mirrorUrl" "startsWith mirrorUrl ''http''"
  "\<not> includesStr mirrorUrl ''toonstream.one''" "\<not> includesStr mirrorUrl ''trembed''"
  by (simp_all add: mirrorUrl_def pageA_def iframeNotToonstream_def)

lemma mirror_normalize: "normalizeUrl mirrorEnv (Some mirrorUrl) base = Some mirrorUrl"
  by (simp add: normalizeUrl_def mirrorEnv_def siteEnv_def mkEnv_def mirrorUrl_def toLowerCase_def
      lowerChar_def decodeHtmlEntities_def entityTable_def)

lemma mirror_pick: "pickIframe mirrorEnv pageA {pageA} (iframes mirrorPage) = Some mirrorUrl"
  by (simp add: mirrorPage_def emptyDocument_def tagWithSrc_def orElse_def truthy_def
      pickIframe_def iframeUrls_def mirror_normalize mirrorUrl_facts)

lemma mirror_step: "resolveStep mirrorEnv pageA 0 {pageA} mirrorPage = Return (Some mirrorUrl)"
proof -
  have v: "videoTags mirrorPage = []" by (simp add: mirrorPage_def emptyDocument_def)
  have n: "\<not> truthyAnd (pickDirectVideo mirrorEnv pageA (videoTags mirrorPage)) isVideoUrl"
    by (simp add: v truthyAnd_def)
  show ?thesis
    by (rule resolveStep_external [OF n mirror_pick])
       (simp_all add: mirrorUrl_facts mirror_settings)
qed

lemma mirror_resolve_A:
  "extractRealVideoUrl mirrorEnv (Some pageA) tr =
     (Some mirrorUrl, \<lparr>visited = {pageA}, trace = tr @ [Visited pageA, Fetch pageA, Request pageA]\<rparr>)"
proof -
  let ?s0 = "\<lparr>visited = {}, trace = tr\<rparr>"
  have "resolve mirrorEnv (Some pageA) 0 ?s0 = (Some mirrorUrl, afterFetch mirrorEnv pageA ?s0)"
  proof (rule resolve_return)
    show "fst (fetchHtmlWithRetry mirrorEnv pageA maxRetries (trace ?s0 @ [Visited pageA])) = Inr pageA"
      by (simp add: mirror_fetch_A)
    show "resolveStep mirrorEnv pageA 0 (insert pageA (visited ?s0)) (cheerioLoad mirrorEnv pageA) =
            Return (Some mirrorUrl)"
      using mirror_step by (simp add: mirror_settings)
  qed (simp_all add: pageA_facts mirror_settings)
  then show ?thesis
    by (simp add: extractRealVideoUrl_def afterFetch_def mirror_fetch_A)
qed

lemma mirror_resolve_B:
  "extractRealVideoUrl mirrorEnv (Some pageB) tr =
     (None, \<lparr>visited = {pageB}, trace = tr @ Visited pageB # Fetch pageB # failedAttempts pageB 3\<rparr>)"
proof -
  let ?s0 = "\<lparr>visited = {}, trace = tr\<rparr>"
  have "resolve mirrorEnv (Some pageB) 0 ?s0 = (None, afterFetch mirrorEnv pageB ?s0)"
  proof (rule resolve_fetch_failed)
    show "fst (fetchHtmlWithRetry mirrorEnv pageB maxRetries (trace ?s0 @ [Visited pageB])) =
            Inl (JsError (''Failed to fetch '' @ pageB @ '': ENOTFOUND''))"
      by (simp add: mirror_fetch_B)
  qed (simp_all add: pageB_facts mirror_settings)
  then show ?thesis
    by (simp add: extractRealVideoUrl_def afterFetch_def mirror_fetch_B)
qed

lemma mirror_embeds:
  "fst (extractEmbeds mirrorEnv mirrorEpisodeUrl mirrorEpisodeUrl []) =
     [\<lparr>embed_ordinal = NumePlusOne ''0'', embed_url = mirrorUrl, intermediate_url = Some pageA\<rparr>]"
proof -
  have u: "usable (Some mirrorUrl) (Some pageA)"
    using mirrorUrl_facts by (simp add: usable_def truthyAnd_def)
  show ?thesis
    using u mirrorUrl_facts(1)
    by (simp add: extractEmbeds_def mirror_settings episode_servers serverA_def serverB_def truthy_def
        pageA_facts pageB_facts mirror_resolve_A mirror_resolve_B Let_def orDefault_def
        usable_def [of None] truthyAnd_def [of None])
qed

lemma mirror_on_site: "isToonstreamUrl mirrorEnv mirrorUrl"
proof -
  have "hostnameOf mirrorUrl = Some ''toonstream.love''"
    by (simp add: hostnameOf_def mirrorUrl_def)
  then show ?thesis
    using mirrorUrl_facts(1)
    by (simp add: isToonstreamUrl_def mirror_settings truthy_def stripWww_def)
qed

text \<open>
  C7 (fails when the site is configured on another domain). With the home URL set to
  \<open>https://toonstream.love/home/\<close> the source site is \<open>toonstream.love\<close>. The first
  redirector candidate of the episode page resolves to a page of that site, and the
  entry is included with that URL: the test of \<open>extractEmbeds\<close> looks for the text
  \<open>toonstream.one\<close>, not for the configured host that \<open>isToonstreamUrl\<close> compares with.
\<close>

theorem extractEmbeds_source_site_entry:
  "homeUrl mirrorEnv = ''https://toonstream.love/home/''
   \<and> TOONSTREAM_HOST mirrorEnv = Some ''toonstream.love''
   \<and> fst (extractRealVideoUrl mirrorEnv (Some pageA) []) = Some mirrorUrl
   \<and> fst (extractEmbeds mirrorEnv mirrorEpisodeUrl mirrorEpisodeUrl []) =
       [\<lparr>embed_ordinal = NumePlusOne ''0'', embed_url = mirrorUrl, intermediate_url = Some pageA\<rparr>]
   \<and> mirrorUrl = ''https://toonstream.love/embed/naruto-2x5/''
   \<and> isToonstreamUrl mirrorEnv mirrorUrl"
  using mirror_settings(4, 5) mirror_embeds mirror_on_site
  by (simp add: mirror_resolve_A) (simp add: mirrorUrl_def)

section \<open>Properties of the episode record\<close>

lemma specialUrl_no_code: "parseEpisodeCode specialUrl = None"
  by (simp add: specialUrl_def parseEpisodeCode_def matchCodeAt_def Let_def isDigit_def)

lemma special_fetch:
  "fetchHtmlWithRetry specialEnv specialUrl maxRetries tr =
     (Inr specialUrl, tr @ [Fetch specialUrl, Request specialUrl])"
  unfolding specialEnv_def by (rule siteEnv_fetch_ok [of _ _ emptyDocument]) simp

lemma special_context: "seriesContext specialEnv tr html url = Inr ''naruto''"
  by (simp add: specialEnv_def siteEnv_def mkEnv_def)

lemma special_now: "dateNow specialEnv tr div 1000 = 1700000000"
  by (simp add: specialEnv_def siteEnv_def mkEnv_def)

lemma special_embeds: "extractEmbeds specialEnv specialUrl url tr = ([], tr)"
proof -
  have "cheerioLoad specialEnv specialUrl = emptyDocument"
    unfolding specialEnv_def by (rule siteEnv_load) simp
  then show ?thesis
    by (simp add: extractEmbeds_def serverOptionsOf_def emptyDocument_def)
qed

lemma special_record:
  "fst (buildEpisodeRecord specialEnv specialUrl noHints []) =
     Inr \<lparr>seriesCtx = ''naruto'', code = \<lparr>season = Finite 1, episode = Finite 1700000000\<rparr>, servers = []\<rparr>"
  by (simp add: buildEpisodeRecord_def Let_def special_fetch special_context special_now
      special_embeds noHints_def specialUrl_no_code)

text \<open>
  C8 (as stated) fails: for an episode URL without a code and without a hint,
  \<open>buildEpisodeRecord\<close> still returns a record, with season 1 and the time in seconds as
  the episode number.
\<close>

theorem buildEpisodeRecord_counterexample:
  "parseEpisodeCode specialUrl = None \<and> hint_code noHints = None
   \<and> fst (buildEpisodeRecord specialEnv specialUrl noHints []) =
       Inr \<lparr>seriesCtx = ''naruto'', code = \<lparr>season = Finite 1, episode = Finite 1700000000\<rparr>, servers = []\<rparr>"
  by (simp add: specialUrl_no_code special_record) (simp add: noHints_def)

text \<open>
  C8 (as the code has it). For an episode URL in which \<open>parseEpisodeCode\<close> finds no code,
  and with no code among the hints, \<open>buildEpisodeRecord\<close> falls back to season 1 and
  episode \<open>floor(Date.now() / 1000)\<close>: whenever the page is fetched and the series context
  is resolved it returns a record with that code, and it fails only with the error of
  the fetch or of the series context.
\<close>

theorem buildEpisodeRecord_fallback_code:
  "(hint_code hnts = None \<and> parseEpisodeCode episodeUrl = None
      \<and> fetchHtmlWithRetry E episodeUrl maxRetries tr = (Inr html, tr1)
      \<and> seriesContext E tr1 html episodeUrl = Inr ctx
    \<longrightarrow> (\<exists>r. fst (buildEpisodeRecord E episodeUrl hnts tr) = Inr r
            \<and> code r = \<lparr>season = Finite 1, episode = Finite (dateNow E tr1 div 1000)\<rparr>))
   \<and> (\<forall>err. fst (buildEpisodeRecord E episodeUrl hnts tr) = Inl err \<longrightarrow>
         fst (fetchHtmlWithRetry E episodeUrl maxRetries tr) = Inl err
         \<or> (\<exists>html. fst (fetchHtmlWithRetry E episodeUrl maxRetries tr) = Inr html
              \<and> seriesContext E (snd (fetchHtmlWithRetry E episodeUrl maxRetries tr)) html episodeUrl
                  = Inl err))"
proof -
  have a: "hint_code hnts = None \<and> parseEpisodeCode episodeUrl = None
      \<and> fetchHtmlWithRetry E episodeUrl maxRetries tr = (Inr html, tr1)
      \<and> seriesContext E tr1 html episodeUrl = Inr ctx
    \<longrightarrow> (\<exists>r. fst (buildEpisodeRecord E episodeUrl hnts tr) = Inr r
            \<and> code r = \<lparr>season = Finite 1, episode = Finite (dateNow E tr1 div 1000)\<rparr>)"
    by (simp add: buildEpisodeRecord_def Let_def)
  have b: "\<forall>err. fst (buildEpisodeRecord E episodeUrl hnts tr) = Inl err \<longrightarrow>
         fst (fetchHtmlWithRetry E episodeUrl maxRetries tr) = Inl err
         \<or> (\<exists>html. fst (fetchHtmlWithRetry E episodeUrl maxRetries tr) = Inr html
              \<and> seriesContext E (snd (fetchHtmlWithRetry E episodeUrl maxRetries tr)) html episodeUrl
                  = Inl err)"
    by (auto simp: buildEpisodeRecord_def Let_def split: sum.splits)
  show ?thesis using a b by (intro conjI)
qed

theorem buildEpisodeRecord_fallback_code_witness:
  "hint_code noHints = None \<and> parseEpisodeCode specialUrl = None
   \<and> fetchHtmlWithRetry specialEnv specialUrl maxRetries [] =
       (Inr specialUrl, [Fetch specialUrl, Request specialUrl])
   \<and> seriesContext specialEnv [Fetch specialUrl, Request specialUrl] specialUrl specialUrl = Inr ''naruto''
   \<and> (\<exists>r. fst (buildEpisodeRecord specialEnv specialUrl noHints []) = Inr r
          \<and> code r = \<lparr>season = Finite 1, episode = Finite 1700000000\<rparr>)"
proof -
  have h: "hint_code noHints = None \<and> parseEpisodeCode specialUrl = None
      \<and> fetchHtmlWithRetry specialEnv specialUrl maxRetries [] =
          (Inr specialUrl, [Fetch specialUrl, Request specialUrl])
      \<and> seriesContext specialEnv [Fetch specialUrl, Request specialUrl] specialUrl specialUrl = Inr ''naruto''"
    using special_fetch [of "[]"] by (simp add: noHints_def specialUrl_no_code special_context)
  have "\<exists>r. fst (buildEpisodeRecord specialEnv specialUrl noHints []) = Inr r
          \<and> code r = \<lparr>season = Finite 1,
               episode = Finite (dateNow specialEnv [Fetch specialUrl, Request specialUrl] div 1000)\<rparr>"
    by (rule buildEpisodeRecord_fallback_code [THEN conjunct1, THEN mp]) (rule h)
  then show ?thesis using h by (simp add: special_now)
qed

section \<open>Properties of the episode links\<close>

lemma addLinks_firstByKey:
  "fst (addLinks E base nodes (links, seen)) =
     links @ firstByKey seen (List.map_filter (linkOf E base) nodes)"
proof (induction nodes arbitrary: links seen)
  case Nil
  then show ?case by (simp add: map_filter_simps)
next
  case (Cons node nodes)
  then show ?case by (simp add: map_filter_simps split: option.splits)
qed

lemma firstByKey_keys:
  "distinct (map linkKey (firstByKey seen cs)) \<and> linkKey ` set (firstByKey seen cs) \<inter> seen = {}"
proof (induction cs arbitrary: seen)
  case Nil
  then show ?case by simp
next
  case (Cons c cs)
  show ?case
  proof (cases "linkKey c \<in> seen")
    case True
    then show ?thesis using Cons [of seen] by simp
  next
    case False
    then show ?thesis using Cons [of "insert (linkKey c) seen"] by auto
  qed
qed

lemma firstByKey_notin: "l \<in> set (firstByKey seen cs) \<Longrightarrow> linkKey l \<notin> seen"
  using firstByKey_keys [of seen cs] by blast

lemma firstByKey_first:
  "l \<in> set (firstByKey seen cs) \<Longrightarrow> find (\<lambda>c. linkKey c = linkKey l) cs = Some l"
proof (induction cs arbitrary: seen)
  case Nil
  then show ?case by simp
next
  case (Cons c cs)
  show ?case
  proof (cases "linkKey c \<in> seen")
    case True
    then have l: "l \<in> set (firstByKey seen cs)" using Cons.prems by simp
    then have "linkKey l \<notin> seen" by (rule firstByKey_notin)
    then have "linkKey c \<noteq> linkKey l" using True by auto
    then show ?thesis using Cons.IH [OF l] by simp
  next
    case False
    show ?thesis
    proof (cases "l = c")
      case True
      then show ?thesis by simp
    next
      case ne: False
      then have l: "l \<in> set (firstByKey (insert (linkKey c) seen) cs)"
        using Cons.prems False by simp
      then have "linkKey l \<notin> insert (linkKey c) seen" by (rule firstByKey_notin)
      then have "linkKey c \<noteq> linkKey l" by auto
      then show ?thesis using Cons.IH [OF l] by simp
    qed
  qed
qed

lemma firstByKey_covers:
  "c \<in> set cs \<Longrightarrow> linkKey c \<in> seen \<or> linkKey c \<in> linkKey ` set (firstByKey seen cs)"
proof (induction cs arbitrary: seen)
  case Nil
  then show ?case by simp
next
  case (Cons d cs)
  show ?case
  proof (cases "c = d")
    case True
    then show ?thesis by simp
  next
    case False
    then have c: "c \<in> set cs" using Cons.prems by simp
    show ?thesis
    proof (cases "linkKey d \<in> seen")
      case True
      then show ?thesis using Cons.IH [OF c, of seen] by simp
    next
      case nd: False
      then show ?thesis using Cons.IH [OF c, of "insert (linkKey d) seen"] by auto
    qed
  qed
qed

lemma codeLeq_iff:
  "codeLeq a b =
     (numLess (season a) (season b)
      \<or> (season a = season b \<and> (episode a = episode b \<or> numLess (episode a) (episode b))))"
proof -
  have m: "(\<not> positive (jsMinus x y)) = (x = y \<or> numLess x y)" for x y
    by (cases x; cases y) (auto simp: positive_def)
  have n: "\<not> numLess x x" for x by (cases x) auto
  show ?thesis
    using n [of "season a"] by (auto simp: codeLeq_def compareLinks_def m)
qed

lemma numLess_trans: "numLess a b \<Longrightarrow> numLess b c \<Longrightarrow> numLess a c"
  by (cases a; cases b; cases c) auto

lemma numLess_total: "\<not> numLess a b \<Longrightarrow> a \<noteq> b \<Longrightarrow> numLess b a"
  by (cases a; cases b) auto

lemma codeLeq_trans: "codeLeq a b \<Longrightarrow> codeLeq b c \<Longrightarrow> codeLeq a c"
  unfolding codeLeq_iff by (auto dest: numLess_trans)

lemma codeLeq_total: "\<not> codeLeq a b \<Longrightarrow> codeLeq b a"
  unfolding codeLeq_iff by (auto dest: numLess_total)

lemma set_insertLink: "set (insertLink x ys) = insert x (set ys)"
  by (induction ys) auto

lemma sorted_insertLink:
  "sorted_wrt codeLeq ys \<Longrightarrow> sorted_wrt codeLeq (insertLink x ys)"
proof (induction ys)
  case Nil
  then show ?case by simp
next
  case (Cons y ys)
  show ?case
  proof (cases "\<not> positive (compareLinks x y)")
    case True
    then have xy: "codeLeq x y" by (simp add: codeLeq_def)
    have "\<forall>z \<in> set ys. codeLeq x z" using Cons.prems xy codeLeq_trans by auto
    then show ?thesis using True xy Cons.prems by simp
  next
    case False
    then have yx: "codeLeq y x" using codeLeq_total by (simp add: codeLeq_def)
    then show ?thesis using False Cons by (auto simp: set_insertLink)
  qed
qed

lemma distinct_insertLink:
  "distinct (map linkKey (insertLink x ys)) =
     (linkKey x \<notin> linkKey ` set ys \<and> distinct (map linkKey ys))"
  by (induction ys) (auto simp: set_insertLink)

lemma set_sortLinks: "set (sortLinks xs) = set xs"
  unfolding sortLinks_def by (induction xs) (simp_all add: set_insertLink)

lemma sorted_sortLinks: "sorted_wrt codeLeq (sortLinks xs)"
  unfolding sortLinks_def by (induction xs) (simp_all add: sorted_insertLink)

lemma distinct_sortLinks:
  "distinct (map linkKey xs) \<Longrightarrow> distinct (map linkKey (sortLinks xs))"
proof (induction xs)
  case Nil
  then show ?case by (simp add: sortLinks_def)
next
  case (Cons x xs)
  have "set (foldr insertLink xs []) = set xs" using set_sortLinks [of xs] by (simp add: sortLinks_def)
  then show ?case using Cons by (simp add: sortLinks_def distinct_insertLink)
qed

lemma strictly_sorted:
  "sorted_wrt codeLeq xs \<Longrightarrow> distinct (map linkKey xs) \<Longrightarrow> sorted_wrt codeBefore xs"
proof (induction xs)
  case Nil
  then show ?case by simp
next
  case (Cons x xs)
  have "codeBefore x y" if "y \<in> set xs" for y
  proof -
    have "codeLeq x y" and "linkKey x \<noteq> linkKey y" using Cons.prems that by auto
    then show ?thesis by (auto simp: codeLeq_iff codeBefore_def linkKey_def)
  qed
  then show ?case using Cons by simp
qed

lemma links_unsorted:
  "fst (addLinks E base (episodeAnchors (cheerioLoad E html)) ([], {})) =
     firstByKey {} (candidateLinks E html base)"
  by (simp add: addLinks_firstByKey candidateLinks_def)

text \<open>
  C9. The list returned by \<open>extractSeriesEpisodeLinks\<close> is strictly ascending by season
  first and episode second, so it holds at most one entry per pair of season and
  episode; every entry is the first link with its pair among the links of the anchors in
  document order, and every pair found among the anchors has its entry.
\<close>

theorem extractSeriesEpisodeLinks_sorted_unique:
  "sorted_wrt codeBefore (extractSeriesEpisodeLinks E html base)
   \<and> distinct (map linkKey (extractSeriesEpisodeLinks E html base))
   \<and> (\<forall>l \<in> set (extractSeriesEpisodeLinks E html base).
         find (\<lambda>c. linkKey c = linkKey l) (candidateLinks E html base) = Some l)
   \<and> (\<forall>c \<in> set (candidateLinks E html base).
         \<exists>l \<in> set (extractSeriesEpisodeLinks E html base). linkKey l = linkKey c)"
proof -
  let ?cs = "candidateLinks E html base"
  have eq: "extractSeriesEpisodeLinks E html base = sortLinks (firstByKey {} ?cs)"
    by (simp add: extractSeriesEpisodeLinks_def links_unsorted)
  have d: "distinct (map linkKey (sortLinks (firstByKey {} ?cs)))"
    using firstByKey_keys [of "{}" ?cs] by (simp add: distinct_sortLinks)
  have s: "sorted_wrt codeBefore (sortLinks (firstByKey {} ?cs))"
    using sorted_sortLinks d by (rule strictly_sorted)
  have f: "\<forall>l \<in> set (sortLinks (firstByKey {} ?cs)). find (\<lambda>c. linkKey c = linkKey l) ?cs = Some l"
    using firstByKey_first by (simp add: set_sortLinks)
  have c: "\<forall>c \<in> set ?cs. \<exists>l \<in> set (sortLinks (firstByKey {} ?cs)). linkKey l = linkKey c"
  proof
    fix c assume "c \<in> set ?cs"
    from firstByKey_covers [OF this, of "{}"]
    show "\<exists>l \<in> set (sortLinks (firstByKey {} ?cs)). linkKey l = linkKey c"
      by (auto simp: set_sortLinks)
  qed
  show ?thesis unfolding eq using s d f c by (intro conjI)
qed

lemma series_anchors:
  "episodeAnchors (cheerioLoad seriesEnv seriesUrl) =
     [anchorTo ep21Url ''Episode 1'', anchorTo ep12Url ''Episode 2'', anchorTo ep12Url ''Watch'']"
proof -
  have "cheerioLoad seriesEnv seriesUrl = seriesPage"
    unfolding seriesEnv_def by (rule siteEnv_load) simp
  then show ?thesis
    by (simp add: episodeAnchors_def seriesPage_def emptyDocument_def anchorTo_def ep21Url_def ep12Url_def)
qed

lemma episode_urls_normalize:
  "normalizeUrl (siteEnv pages) (Some ep21Url) base = Some ep21Url"
  "normalizeUrl (siteEnv pages) (Some ep12Url) base = Some ep12Url"
  by (rule siteEnv_normalizeUrl;
      simp add: ep21Url_def ep12Url_def toLowerCase_def lowerChar_def
        decodeHtmlEntities_def entityTable_def)+

lemma episode_urls_codes:
  "ep21Url \<noteq> []" "includesStr ep21Url ''/episode/''"
  "parseEpisodeCode ep21Url = Some \<lparr>season = Finite 2, episode = Finite 1\<rparr>"
  "ep12Url \<noteq> []" "includesStr ep12Url ''/episode/''"
  "parseEpisodeCode ep12Url = Some \<lparr>season = Finite 1, episode = Finite 2\<rparr>"
  by (simp_all add: ep21Url_def ep12Url_def parseEpisodeCode_def matchCodeAt_def Let_def isDigit_def
      parseInt10_def decimalValue_def digitVal_def toNumber_def)

lemma series_linkOf:
  "linkOf seriesEnv base (anchorTo ep21Url t) = Some (linkTo 2 1 ep21Url t)"
  "linkOf seriesEnv base (anchorTo ep12Url t) = Some (linkTo 1 2 ep12Url t)"
  by (simp_all add: linkOf_def anchorTo_def linkTo_def seriesEnv_def episode_urls_normalize
      episode_urls_codes)

lemma series_candidates:
  "candidateLinks seriesEnv seriesUrl seriesUrl =
     [linkTo 2 1 ep21Url ''Episode 1'', linkTo 1 2 ep12Url ''Episode 2'', linkTo 1 2 ep12Url ''Watch'']"
  by (simp add: candidateLinks_def series_anchors map_filter_simps series_linkOf)

lemma series_links:
  "extractSeriesEpisodeLinks seriesEnv seriesUrl seriesUrl =
     [linkTo 1 2 ep12Url ''Episode 2'', linkTo 2 1 ep21Url ''Episode 1'']"
  by (simp add: extractSeriesEpisodeLinks_def series_anchors series_linkOf)
     (simp add: linkTo_def linkKey_def sortLinks_def compareLinks_def positive_def)

theorem extractSeriesEpisodeLinks_sorted_unique_witness:
  "extractSeriesEpisodeLinks seriesEnv seriesUrl seriesUrl =
     [linkTo 1 2 ep12Url ''Episode 2'', linkTo 2 1 ep21Url ''Episode 1'']
   \<and> candidateLinks seriesEnv seriesUrl seriesUrl =
     [linkTo 2 1 ep21Url ''Episode 1'', linkTo 1 2 ep12Url ''Episode 2'', linkTo 1 2 ep12Url ''Watch'']
   \<and> linkTo 1 2 ep12Url ''Episode 2'' \<in> set (extractSeriesEpisodeLinks seriesEnv seriesUrl seriesUrl)
   \<and> find (\<lambda>c. linkKey c = linkKey (linkTo 1 2 ep12Url ''Episode 2''))
        (candidateLinks seriesEnv seriesUrl seriesUrl) = Some (linkTo 1 2 ep12Url ''Episode 2'')
   \<and> linkTo 1 2 ep12Url ''Watch'' \<in> set (candidateLinks seriesEnv seriesUrl seriesUrl)
   \<and> (\<exists>l \<in> set (extractSeriesEpisodeLinks seriesEnv seriesUrl seriesUrl).
         linkKey l = linkKey (linkTo 1 2 ep12Url ''Watch''))
   \<and> sorted_wrt codeBefore [linkTo 1 2 ep12Url ''Episode 2'', linkTo 2 1 ep21Url ''Episode 1'']"
proof -
  note t = extractSeriesEpisodeLinks_sorted_unique [of seriesEnv seriesUrl seriesUrl]
  let ?l = "linkTo 1 2 ep12Url ''Episode 2''"
  let ?w = "linkTo 1 2 ep12Url ''Watch''"
  have m: "?l \<in> set (extractSeriesEpisodeLinks seriesEnv seriesUrl seriesUrl)"
    by (simp add: series_links)
  have f: "find (\<lambda>c. linkKey c = linkKey ?l) (candidateLinks seriesEnv seriesUrl seriesUrl) = Some ?l"
    using t m by blast
  have c: "?w \<in> set (candidateLinks seriesEnv seriesUrl seriesUrl)"
    by (simp add: series_candidates)
  have e: "\<exists>l \<in> set (extractSeriesEpisodeLinks seriesEnv seriesUrl seriesUrl). linkKey l = linkKey ?w"
    using t c by blast
  have s: "sorted_wrt codeBefore [?l, linkTo 2 1 ep21Url ''Episode 1'']"
    using t by (simp add: series_links)
  show ?thesis using m f c e s series_links series_candidates by simp
qed

section \<open>Properties of the Worker variant\<close>

lemma suspend_fields [simp]:
  "fetchLog (suspend W st) = fetchLog st"
  "awaits (suspend W st) = awaits st + 1"
  "subrequestCount (suspend W st) = otherRuns W (awaits st) (subrequestCount st)"
  "progress (suspend W st) = progress st"
  "processedIndex (suspend W st) = processedIndex st"
  "syncedCount (suspend W st) = syncedCount st"
  "skippedCount (suspend W st) = skippedCount st"
  by (simp_all add: suspend_def)

lemma withinLimit_update [simp]:
  "withinLimit (st\<lparr>processedIndex := a\<rparr>) = withinLimit st"
  "withinLimit (st\<lparr>skippedCount := b\<rparr>) = withinLimit st"
  "withinLimit (st\<lparr>syncedCount := c\<rparr>) = withinLimit st"
  "withinLimit (st\<lparr>progress := d\<rparr>) = withinLimit st"
  "withinLimit (st\<lparr>awaits := k\<rparr>) = withinLimit st"
  by (simp_all add: withinLimit_def)

lemma withinLimit_suspend: "alone W \<Longrightarrow> withinLimit (suspend W st) = withinLimit st"
  by (simp add: withinLimit_def alone_def)

lemma fetchHtml_withinLimit:
  "alone W \<Longrightarrow> withinLimit st \<Longrightarrow> withinLimit (snd (fetchHtml W url st))"
  by (auto simp: fetchHtml_def countRequest_def withinLimit_def alone_def canFetch_def Let_def
      split: httpResult.splits)

lemma resolveVideoUrl_withinLimit:
  "alone W \<Longrightarrow> withinLimit st \<Longrightarrow> withinLimit (snd (resolveVideoUrl W url depth st))"
  "alone W \<Longrightarrow> withinLimit st \<Longrightarrow> withinLimit (snd (iframeLoop W ms depth st))"
proof (induction W url depth st and W ms depth st rule: resolveVideoUrl_iframeLoop.induct)
  case (1 W url depth st)
  note al = "1.prems"(1) and wl = "1.prems"(2)
  show ?case
  proof (cases "depth > 3 \<or> \<not> canFetch st")
    case True
    then show ?thesis using wl by (subst resolveVideoUrl.simps) simp
  next
    case False
    have f: "withinLimit (snd (fetchHtml W url st))"
      using al wl by (rule fetchHtml_withinLimit)
    show ?thesis
    proof (cases "fst (fetchHtml W url st)")
      case (Inl err)
      then show ?thesis using False f by (subst resolveVideoUrl.simps) (simp add: Let_def)
    next
      case (Inr html)
      have "withinLimit (snd (iframeLoop W (iframeMatches W html) depth (snd (fetchHtml W url st))))"
        using "1.IH" [OF False refl Inr al f] .
      then show ?thesis
        using False Inr
        by (subst resolveVideoUrl.simps) (simp add: Let_def split: option.splits loopExit.splits)
    qed
  qed
next
  case (2 W depth st)
  then show ?case by simp
next
  case (3 W m ms depth st)
  note al = "3.prems"(1) and wl = "3.prems"(2)
  show ?case
  proof (cases "\<not> includesStr (withScheme m) ''toonstream.one'' \<and> \<not> includesStr (withScheme m) ''trembed''
         \<and> \<not> includesStr (withScheme m) ''trid=''")
    case True
    then show ?thesis using wl by (simp add: Let_def)
  next
    case False
    show ?thesis
    proof (cases "includesStr (withScheme m) ''trembed'' \<or> includesStr (withScheme m) ''trid=''")
      case t: True
      have r: "withinLimit (snd (resolveVideoUrl W (withScheme m) (depth + 1) st))"
        using "3.IH"(1) [OF refl False t al wl] .
      show ?thesis
      proof (cases "truthy (fst (resolveVideoUrl W (withScheme m) (depth + 1) st))")
        case True
        then show ?thesis using False t r wl by (simp add: Let_def)
      next
        case nt: False
        have "withinLimit (snd (iframeLoop W ms depth (snd (resolveVideoUrl W (withScheme m) (depth + 1) st))))"
          using "3.IH"(2) [OF refl False t refl nt al r] .
        then show ?thesis using False t nt wl by (simp add: Let_def)
      qed
    next
      case nt: False
      have "withinLimit (snd (iframeLoop W ms depth st))"
        using "3.IH"(3) [OF refl False nt al wl] .
      then show ?thesis using False nt wl by (simp add: Let_def)
    qed
  qed
qed

lemma serverLoop_withinLimit:
  "alone W \<Longrightarrow> withinLimit st \<Longrightarrow> withinLimit (snd (serverLoop W urls videoUrl st))"
proof (induction urls arbitrary: videoUrl st)
  case Nil
  then show ?case by simp
next
  case (Cons url rest)
  have r: "withinLimit (snd (resolveVideoUrl W url 0 st))"
    using Cons.prems by (rule resolveVideoUrl_withinLimit(1))
  show ?case using Cons.prems r Cons.IH [OF Cons.prems(1) r] by (simp add: Let_def)
qed

lemma episodeLoop_withinLimit:
  "alone W \<Longrightarrow> withinLimit st \<Longrightarrow> withinLimit (episodeLoop W eps i st)"
proof (induction eps arbitrary: i st)
  case Nil
  then show ?case by simp
next
  case (Cons ep rest)
  note al = Cons.prems(1)
  let ?st1 = "suspend W (st\<lparr>processedIndex := i\<rparr>)"
  have s1: "withinLimit ?st1" using Cons.prems by (simp add: withinLimit_suspend)
  have f: "withinLimit (snd (fetchHtml W (ep_url ep) ?st1))"
    using al s1 by (rule fetchHtml_withinLimit)
  have r: "withinLimit (snd (serverLoop W urls None (snd (fetchHtml W (ep_url ep) ?st1))))" for urls
    using al f by (rule serverLoop_withinLimit)
  have r': "withinLimit (suspend W (snd (serverLoop W urls None (snd (fetchHtml W (ep_url ep) ?st1)))))"
    for urls
    using r [of urls] by (simp add: withinLimit_suspend [OF al])
  show ?case
    using Cons.prems s1 f r r' Cons.IH [OF al]
    by (simp add: Let_def saveProgress_def withinLimit_suspend [OF al] split: sum.splits)
qed

lemma runSync_withinLimit: "alone W \<Longrightarrow> withinLimit (snd (runSync W st0))"
proof -
  assume al: "alone W"
  let ?st = "startRun st0"
  have "withinLimit ?st" by (simp add: withinLimit_def startRun_def)
  with al have f: "withinLimit (snd (fetchHtml W ''https://toonstream.one/'' ?st))"
    by (rule fetchHtml_withinLimit)
  have e: "withinLimit (episodeLoop W eps i
             ((suspend W (snd (fetchHtml W ''https://toonstream.one/'' ?st)))
                \<lparr>syncedCount := 0, skippedCount := 0, processedIndex := j\<rparr>))" for eps i j
    using f by (simp add: episodeLoop_withinLimit [OF al] withinLimit_suspend [OF al])
  show ?thesis
    using f e
    by (simp add: runSync_def Let_def saveProgress_def withinLimit_suspend [OF al]
        split: sum.splits exn.splits)
qed

lemma runSync_resets: "runSync W (st0\<lparr>subrequestCount := n\<rparr>) = runSync W st0"
  by (simp add: runSync_def startRun_def)

lemma fetchHtml_counts:
  "(canFetch st \<longrightarrow>
      snd (fetchHtml W url st) =
        suspend W (st\<lparr>subrequestCount := subrequestCount st + 1, fetchLog := fetchLog st @ [url]\<rparr>))
   \<and> (\<not> canFetch st \<longrightarrow> fetchHtml W url st = (Inl (JsError ''Subrequest limit reached''), st))"
  by (auto simp: fetchHtml_def countRequest_def Let_def split: httpResult.splits)

text \<open>
  A run that has the isolate to itself. After \<open>runSync\<close>, whatever the counter was
  before, the pages requested in the run are at most 45 and the counter equals their
  number. A call of \<open>fetchHtml\<close> below the limit increments the counter and sends one
  request; at the limit it throws \<open>Subrequest limit reached\<close> and sends nothing. An
  iteration of the episode loop that finds the limit reached saves its index as the
  resume index and ends the loop.
\<close>

lemma runSync_alone_within_limit:
  assumes "alone W"
  shows "length (fetchLog (snd (runSync W st0))) \<le> 45
   \<and> subrequestCount (snd (runSync W st0)) = length (fetchLog (snd (runSync W st0)))
   \<and> runSync W (st0\<lparr>subrequestCount := n\<rparr>) = runSync W st0
   \<and> (canFetch st \<longrightarrow>
        snd (fetchHtml W url st) =
          st\<lparr>subrequestCount := subrequestCount st + 1, fetchLog := fetchLog st @ [url],
             awaits := awaits st + 1\<rparr>)
   \<and> (\<not> canFetch st \<longrightarrow> fetchHtml W url st = (Inl (JsError ''Subrequest limit reached''), st))
   \<and> (\<not> canFetch st \<longrightarrow> episodeLoop W (ep # rest) i st = saveProgress W i st)"
proof -
  have a: "length (fetchLog (snd (runSync W st0))) \<le> 45
     \<and> subrequestCount (snd (runSync W st0)) = length (fetchLog (snd (runSync W st0)))"
    using runSync_withinLimit [OF assms, of st0] by (simp add: withinLimit_def MAX_SUBREQUESTS_def)
  have b: "\<not> canFetch st \<longrightarrow> episodeLoop W (ep # rest) i st = saveProgress W i st"
    by simp
  have c: "canFetch st \<longrightarrow>
        snd (fetchHtml W url st) =
          st\<lparr>subrequestCount := subrequestCount st + 1, fetchLog := fetchLog st @ [url],
             awaits := awaits st + 1\<rparr>"
    using fetchHtml_counts [of st W url] assms by (simp add: suspend_def alone_def)
  show ?thesis using a b c runSync_resets fetchHtml_counts [of st W url] by (intro conjI) simp_all
qed

lemma busy_alone: "alone busyWorker"
  by (simp add: alone_def busyWorker_def)

lemma busy_suspend: "suspend busyWorker st = st\<lparr>awaits := awaits st + 1\<rparr>"
  by (simp add: suspend_def busyWorker_def)

lemma busy_fetch:
  "canFetch st \<Longrightarrow>
     fetchHtml busyWorker url st =
       (Inr url, st\<lparr>subrequestCount := subrequestCount st + 1, fetchLog := fetchLog st @ [url],
                    awaits := awaits st + 1\<rparr>)"
  by (simp add: fetchHtml_def countRequest_def Let_def busy_suspend) (simp add: busyWorker_def)

lemma busy_loop:
  assumes "subrequestCount st + length eps > 45" and "subrequestCount st \<le> 45"
  shows "subrequestCount (episodeLoop busyWorker eps i st) = 45
     \<and> progress (episodeLoop busyWorker eps i st) = i + (45 - subrequestCount st)
     \<and> processedIndex (episodeLoop busyWorker eps i st) =
         (if subrequestCount st < 45 then i + (44 - subrequestCount st) else processedIndex st)"
  using assms
proof (induction eps arbitrary: i st)
  case Nil
  then show ?case by simp
next
  case (Cons ep rest)
  show ?case
  proof (cases "subrequestCount st = 45")
    case True
    then show ?thesis
      by (simp add: canFetch_def MAX_SUBREQUESTS_def saveProgress_def busy_suspend)
  next
    case False
    then have lt: "subrequestCount st < 45" using Cons.prems(2) by simp
    let ?st1 = "st\<lparr>processedIndex := i, awaits := awaits st + 1\<rparr>"
    let ?st2 = "?st1\<lparr>subrequestCount := subrequestCount ?st1 + 1,
                      fetchLog := fetchLog ?st1 @ [ep_url ep], awaits := awaits ?st1 + 1\<rparr>"
    have c: "canFetch st" "canFetch ?st1" using lt by (simp_all add: canFetch_def MAX_SUBREQUESTS_def)
    have step: "episodeLoop busyWorker (ep # rest) i st = episodeLoop busyWorker rest (i + 1) ?st2"
      using c busy_fetch [OF c(2), of "ep_url ep"]
      by (simp add: Let_def busy_suspend) (simp add: busyWorker_def)
    have p: "subrequestCount ?st2 + length rest > 45" "subrequestCount ?st2 \<le> 45"
      using Cons.prems lt by simp_all
    from Cons.IH [OF p, of "i + 1"] lt show ?thesis
      unfolding step by auto
  qed
qed

lemma busy_run:
  assumes "progress st0 = 0"
  shows "subrequestCount (snd (runSync busyWorker st0)) = 45
   \<and> progress (snd (runSync busyWorker st0)) = 44"
proof -
  let ?st = "st0\<lparr>subrequestCount := 0, fetchLog := [], awaits := 0\<rparr>"
  let ?st1 = "?st\<lparr>subrequestCount := 1, fetchLog := [''https://toonstream.one/''],
                  awaits := Suc (Suc 0), syncedCount := 0, skippedCount := 0, processedIndex := 0\<rparr>"
  have c: "canFetch ?st" by (simp add: canFetch_def MAX_SUBREQUESTS_def)
  have f: "fetchHtml busyWorker ''https://toonstream.one/'' ?st =
      (Inr ''https://toonstream.one/'',
       ?st\<lparr>subrequestCount := 1, fetchLog := [''https://toonstream.one/''], awaits := 1\<rparr>)"
    using busy_fetch [OF c, of "''https://toonstream.one/''"] by simp
  have e: "extractEpisodesFromHomepage busyWorker h = map busyEpisode [1..<61]"
    and l: "getProgress busyWorker s = progress s" for h s
    by (simp_all add: busyWorker_def getProgress_def)
  have b: "subrequestCount (episodeLoop busyWorker (map busyEpisode [1..<61]) 0 ?st1) = 45
     \<and> progress (episodeLoop busyWorker (map busyEpisode [1..<61]) 0 ?st1) = 0 + (45 - subrequestCount ?st1)
     \<and> processedIndex (episodeLoop busyWorker (map busyEpisode [1..<61]) 0 ?st1) =
         (if subrequestCount ?st1 < 45 then 0 + (44 - subrequestCount ?st1) else processedIndex ?st1)"
    by (rule busy_loop) simp_all
  show ?thesis
    using b assms by (simp add: runSync_def startRun_def f e l Let_def saveProgress_def busy_suspend)
qed

lemma runSync_alone_within_limit_example:
  "\<not> canFetch idleState
   \<and> fetchHtml busyWorker ''https://toonstream.one/'' idleState =
       (Inl (JsError ''Subrequest limit reached''), idleState)
   \<and> episodeLoop busyWorker [busyEpisode 8] 7 idleState = saveProgress busyWorker 7 idleState
   \<and> canFetch (idleState\<lparr>subrequestCount := 44\<rparr>)
   \<and> subrequestCount (snd (fetchHtml busyWorker ''https://toonstream.one/''
        (idleState\<lparr>subrequestCount := 44\<rparr>))) = 45
   \<and> subrequestCount (snd (runSync busyWorker idleState)) = 45
   \<and> length (fetchLog (snd (runSync busyWorker idleState))) = 45
   \<and> progress (snd (runSync busyWorker idleState)) = 44"
proof -
  note t = runSync_alone_within_limit
    [OF busy_alone, where ?st0.0 = idleState and st = idleState and ep = "busyEpisode 8"
       and rest = "[]" and i = 7 and url = "''https://toonstream.one/''"]
  note u = runSync_alone_within_limit
    [OF busy_alone, where st = "idleState\<lparr>subrequestCount := 44\<rparr>"
       and url = "''https://toonstream.one/''"]
  have n: "\<not> canFetch idleState" by (simp add: canFetch_def idleState_def MAX_SUBREQUESTS_def)
  have c: "canFetch (idleState\<lparr>subrequestCount := 44\<rparr>)" by (simp add: canFetch_def MAX_SUBREQUESTS_def)
  have a: "fetchHtml busyWorker ''https://toonstream.one/'' idleState =
       (Inl (JsError ''Subrequest limit reached''), idleState)"
    using t n by blast
  have b: "episodeLoop busyWorker [busyEpisode 8] 7 idleState = saveProgress busyWorker 7 idleState"
    using t n by blast
  have d: "subrequestCount (snd (fetchHtml busyWorker ''https://toonstream.one/''
        (idleState\<lparr>subrequestCount := 44\<rparr>))) = 45"
    using u c by simp
  have p: "progress idleState = 0" by (simp add: idleState_def)
  have e: "length (fetchLog (snd (runSync busyWorker idleState))) = 45"
    using t busy_run [OF p] by simp
  show ?thesis using n a b c d e busy_run [OF p] by simp
qed

lemma overlap_fetch:
  "canFetch st \<Longrightarrow>
     fetchHtml overlapWorker url st =
       (Inr url, suspend overlapWorker
                   (st\<lparr>subrequestCount := subrequestCount st + 1, fetchLog := fetchLog st @ [url]\<rparr>))"
  by (simp add: fetchHtml_def countRequest_def Let_def) (simp add: overlapWorker_def busyWorker_def)

lemma secondRunStarts_one: "secondRunStarts n = 1"
  by (simp add: secondRunStarts_def countRequest_def startRun_def)

lemma overlap_others: "otherRuns overlapWorker k n = (if k = 79 then 1 else n)"
  by (simp add: overlapWorker_def secondRunStarts_one)

lemma overlap_loop:
  assumes "awaits st = 2 * i + 2"
    and "subrequestCount st = (if i \<le> 38 then i + 1 else i - 38)"
    and "i \<le> 83"
    and "length (fetchLog st) = i + 1"
    and "84 \<le> i + length eps"
  shows "length (fetchLog (episodeLoop overlapWorker eps i st)) = 84
     \<and> subrequestCount (episodeLoop overlapWorker eps i st) = 45
     \<and> awaits (episodeLoop overlapWorker eps i st) = 169"
  using assms
proof (induction eps arbitrary: i st)
  case Nil
  then show ?case by simp
next
  case (Cons ep rest)
  show ?case
  proof (cases "i = 83")
    case True
    then have "subrequestCount st = 45" "awaits st = 168" using Cons.prems by simp_all
    then show ?thesis
      using Cons.prems(4) True
      by (simp add: canFetch_def MAX_SUBREQUESTS_def saveProgress_def overlap_others)
  next
    case False
    then have lt: "i < 83" using Cons.prems(3) by simp
    let ?st1 = "suspend overlapWorker (st\<lparr>processedIndex := i\<rparr>)"
    let ?st2 = "suspend overlapWorker
                  (?st1\<lparr>subrequestCount := subrequestCount ?st1 + 1,
                         fetchLog := fetchLog ?st1 @ [ep_url ep]\<rparr>)"
    have ne: "awaits st \<noteq> 79" using Cons.prems(1) by presburger
    have eq: "(awaits st + 1 = 79) = (i = 38)" using Cons.prems(1) by presburger
    have n1: "subrequestCount ?st1 = subrequestCount st"
      using ne by (simp add: overlap_others)
    have "subrequestCount st < 45" using lt Cons.prems(2) by (simp split: if_splits)
    then have c: "canFetch st" "canFetch ?st1"
      unfolding canFetch_def MAX_SUBREQUESTS_def n1 by simp_all
    have step: "episodeLoop overlapWorker (ep # rest) i st = episodeLoop overlapWorker rest (i + 1) ?st2"
      using c overlap_fetch [OF c(2), of "ep_url ep"]
      by (simp add: Let_def) (simp add: overlapWorker_def busyWorker_def)
    have p1: "awaits ?st2 = 2 * (i + 1) + 2" using Cons.prems(1) by simp
    have "subrequestCount ?st2 = (if i = 38 then 1 else subrequestCount st + 1)"
      using ne eq by (simp add: overlap_others)
    then have p2: "subrequestCount ?st2 = (if i + 1 \<le> 38 then (i + 1) + 1 else (i + 1) - 38)"
      using Cons.prems(2) by auto
    have p3: "i + 1 \<le> 83" using lt by simp
    have p4: "length (fetchLog ?st2) = (i + 1) + 1" using Cons.prems(4) by simp
    have p5: "84 \<le> (i + 1) + length rest" using Cons.prems(5) by simp
    from Cons.IH [OF p1 p2 p3 p4 p5] show ?thesis unfolding step .
  qed
qed

lemma overlap_run:
  "length (fetchLog (snd (runSync overlapWorker idleState))) = 84
   \<and> subrequestCount (snd (runSync overlapWorker idleState)) = 45"
proof -
  let ?st = "idleState\<lparr>subrequestCount := 0, fetchLog := [], awaits := 0\<rparr>"
  let ?f = "suspend overlapWorker
              (?st\<lparr>subrequestCount := subrequestCount ?st + 1,
                    fetchLog := fetchLog ?st @ [''https://toonstream.one/'']\<rparr>)"
  let ?st1 = "(suspend overlapWorker ?f)\<lparr>syncedCount := 0, skippedCount := 0, processedIndex := 0\<rparr>"
  let ?st2 = "episodeLoop overlapWorker (map busyEpisode [1..<101]) 0 ?st1"
  have c: "canFetch ?st" by (simp add: canFetch_def MAX_SUBREQUESTS_def)
  have f: "fetchHtml overlapWorker ''https://toonstream.one/'' ?st = (Inr ''https://toonstream.one/'', ?f)"
    by (rule overlap_fetch [OF c])
  have e: "extractEpisodesFromHomepage overlapWorker h = map busyEpisode [1..<101]"
    and l: "getProgress overlapWorker s = progress s" for h s
    by (simp_all add: overlapWorker_def busyWorker_def getProgress_def)
  have ne: "map busyEpisode [1..<101] \<noteq> []" by simp
  have b: "length (fetchLog ?st2) = 84 \<and> subrequestCount ?st2 = 45 \<and> awaits ?st2 = 169"
    by (rule overlap_loop) (simp_all add: overlap_others)
  have p0: "progress idleState = 0" by (simp add: idleState_def)
  have r: "snd (runSync overlapWorker idleState) =
             (if 99 \<le> processedIndex ?st2 then saveProgress overlapWorker 0 ?st2 else ?st2)"
    by (simp add: runSync_def startRun_def f e l ne p0 Let_def)
  show ?thesis
    unfolding r using b by (simp add: saveProgress_def overlap_others)
qed

text \<open>
  C10 (fails for overlapping runs). A second \<open>runSync\<close> started while the first waits
  for its fortieth page sets the shared counter to zero and counts one request of its
  own. The first run goes on until the counter reaches 45 again: it has then requested
  84 pages, although the counter it reports is 45.
\<close>

theorem runSync_overlap_exceeds_limit:
  "length (fetchLog (snd (runSync overlapWorker idleState))) = 84
   \<and> subrequestCount (snd (runSync overlapWorker idleState)) = 45
   \<and> MAX_SUBREQUESTS = 45
   \<and> otherRuns overlapWorker 79 40 = secondRunStarts 40
   \<and> secondRunStarts 40 = 1
   \<and> \<not> alone overlapWorker"
proof -
  have "otherRuns overlapWorker 79 40 \<noteq> 40" by (simp add: overlap_others)
  then have "\<not> alone overlapWorker" unfolding alone_def by blast
  then show ?thesis
    using overlap_run by (simp add: MAX_SUBREQUESTS_def overlap_others secondRunStarts_one)
qed

end
